theory Spec2Isabelle
  imports Main "HOL-Library.Log_Nat" "HOL-Library.AList"
begin

section \<open>Python values\<close>

text \<open>
  The response-recovery pipeline of \<open>ai_analyzer.py\<close> works on Python strings,
  dictionaries decoded from JSON, integers and floats. A text is a list of characters,
  each character standing for one code point below 256. Exceptions are values of
  \<open>py_error\<close>; a computation that may raise returns \<open>py_error + 'a\<close>.
\<close>

datatype py_error =
    JSONDecodeError | TypeError | ValueError | OverflowError
  | ZeroDivisionError | AttributeError | KeyError | IndexError | RecursionError

definition bnd :: "py_error + 'a \<Rightarrow> ('a \<Rightarrow> py_error + 'b) \<Rightarrow> py_error + 'b" where
  "bnd m f = (case m of Inl e \<Rightarrow> Inl e | Inr v \<Rightarrow> f v)"

subsection \<open>Floats: IEEE 754 binary64, round to nearest, ties to even\<close>

text \<open>
  A finite float is the rational it denotes (the sign of zero is not kept).
  \<open>rnd64 q\<close> is the double nearest to \<open>q\<close>: 53 bits of significand, exponents
  from \<open>-1022\<close> (below that the spacing stays \<open>2^-1074\<close>), overflow to infinity.
\<close>

datatype pyfloat = Finite rat | PosInf | NegInf | NaN

definition pow2 :: "int \<Rightarrow> rat" where
  "pow2 e = (if 0 \<le> e then 2 ^ nat e else 1 / 2 ^ nat (- e))"

definition ilog2 :: "rat \<Rightarrow> int" where
  "ilog2 a = (let d = bitlen (fst (quotient_of a)) - bitlen (snd (quotient_of a))
              in if pow2 d \<le> a then d else d - 1)"

definition round_half_even :: "rat \<Rightarrow> int" where
  "round_half_even x = (let n = \<lfloor>x\<rfloor>; r = x - of_int n in
      if r < 1 / 2 then n else if 1 / 2 < r then n + 1 else if even n then n else n + 1)"

definition rnd64 :: "rat \<Rightarrow> pyfloat" where
  "rnd64 q = (if q = 0 then Finite 0 else
     let a = \<bar>q\<bar>; e = max (ilog2 a) (- 1022); u = pow2 (e - 52);
         r = of_int (round_half_even (a / u)) * u
     in if pow2 1024 \<le> r then (if 0 < q then PosInf else NegInf)
        else Finite (if 0 < q then r else - r))"

text \<open>Negation of a float.\<close>

fun fneg :: "pyfloat \<Rightarrow> pyfloat" where
  "fneg (Finite a) = Finite (- a)"
| "fneg PosInf = NegInf"
| "fneg NegInf = PosInf"
| "fneg NaN = NaN"

text \<open>A float literal of the source denotes the double nearest to its decimal value.\<close>

definition lit :: "rat \<Rightarrow> pyfloat" where
  "lit q = rnd64 q"

fun fl_mul :: "pyfloat \<Rightarrow> pyfloat \<Rightarrow> pyfloat" where
  "fl_mul NaN _ = NaN"
| "fl_mul _ NaN = NaN"
| "fl_mul (Finite a) (Finite b) = rnd64 (a * b)"
| "fl_mul (Finite a) PosInf = (if a = 0 then NaN else if 0 < a then PosInf else NegInf)"
| "fl_mul (Finite a) NegInf = (if a = 0 then NaN else if 0 < a then NegInf else PosInf)"
| "fl_mul PosInf (Finite b) = (if b = 0 then NaN else if 0 < b then PosInf else NegInf)"
| "fl_mul NegInf (Finite b) = (if b = 0 then NaN else if 0 < b then NegInf else PosInf)"
| "fl_mul PosInf PosInf = PosInf"
| "fl_mul PosInf NegInf = NegInf"
| "fl_mul NegInf PosInf = NegInf"
| "fl_mul NegInf NegInf = PosInf"

fun is_inf :: "pyfloat \<Rightarrow> bool" where
  "is_inf PosInf = True"
| "is_inf NegInf = True"
| "is_inf _ = False"

fun fl_div :: "pyfloat \<Rightarrow> pyfloat \<Rightarrow> py_error + pyfloat" where
  "fl_div x (Finite b) =
     (if b = 0 then Inl ZeroDivisionError
      else case x of
          Finite a \<Rightarrow> Inr (rnd64 (a / b))
        | PosInf \<Rightarrow> Inr (if 0 < b then PosInf else NegInf)
        | NegInf \<Rightarrow> Inr (if 0 < b then NegInf else PosInf)
        | NaN \<Rightarrow> Inr NaN)"
| "fl_div x NaN = Inr NaN"
| "fl_div x y = Inr (case x of Finite a \<Rightarrow> Finite 0 | _ \<Rightarrow> NaN)"

text \<open>Numbers: Python's \<open>int\<close> (unbounded; \<open>bool\<close> is a subclass of it) and \<open>float\<close>.\<close>

datatype pynum = NInt int | NFloat pyfloat

text \<open>\<open>float(n)\<close>: the nearest double, \<open>OverflowError\<close> when \<open>n\<close> is too large.\<close>

definition int_to_float :: "int \<Rightarrow> py_error + pyfloat" where
  "int_to_float n = (case rnd64 (of_int n) of Finite r \<Rightarrow> Inr (Finite r) | _ \<Rightarrow> Inl OverflowError)"

fun to_float :: "pynum \<Rightarrow> py_error + pyfloat" where
  "to_float (NInt n) = int_to_float n"
| "to_float (NFloat x) = Inr x"

text \<open>\<open>x * c\<close> for a float \<open>c\<close>: an int operand is converted first.\<close>

definition num_mul_f :: "pynum \<Rightarrow> pyfloat \<Rightarrow> py_error + pyfloat" where
  "num_mul_f x c = bnd (to_float x) (\<lambda>xf. Inr (fl_mul xf c))"

text \<open>
  \<open>x / d\<close> for an int \<open>d\<close>: true division of two ints rounds the exact quotient once
  (\<open>OverflowError\<close> when it is too large for a float); a float is divided by \<open>float(d)\<close>.
\<close>

fun num_div_i :: "pynum \<Rightarrow> int \<Rightarrow> py_error + pyfloat" where
  "num_div_i (NInt n) d =
     (if d = 0 then Inl ZeroDivisionError
      else case rnd64 (of_int n / of_int d) of Finite r \<Rightarrow> Inr (Finite r) | _ \<Rightarrow> Inl OverflowError)"
| "num_div_i (NFloat x) d = bnd (int_to_float d) (\<lambda>df. fl_div x df)"

text \<open>\<open>int(x)\<close> truncates toward zero; it raises on infinities and NaN.\<close>

fun py_int :: "pyfloat \<Rightarrow> py_error + int" where
  "py_int (Finite a) = Inr (if 0 \<le> a then \<lfloor>a\<rfloor> else - \<lfloor>- a\<rfloor>)"
| "py_int PosInf = Inl OverflowError"
| "py_int NegInf = Inl OverflowError"
| "py_int NaN = Inl ValueError"

subsection \<open>Strings\<close>

definition digit_char :: "nat \<Rightarrow> char" where
  "digit_char d = char_of (48 + d)"

fun digits :: "nat \<Rightarrow> string" where
  "digits n = (if n < 10 then [digit_char n] else digits (n div 10) @ [digit_char (n mod 10)])"

declare digits.simps [simp del]

text \<open>\<open>str(n)\<close>, as an f-string renders an int.\<close>

definition str_int :: "int \<Rightarrow> string" where
  "str_int n = (if n < 0 then CHR ''-'' # digits (nat (- n)) else digits (nat n))"

text \<open>The f-string \<open>f"{n}g"\<close>.\<close>

definition grams :: "int \<Rightarrow> string" where
  "grams n = str_int n @ ''g''"

subsection \<open>Values and dictionaries\<close>

text \<open>
  A dictionary is an association list in insertion order with distinct keys;
  \<open>result[k] = v\<close> is \<open>AList.update k v result\<close>, which keeps the position of a key
  that is already there and appends a new one.
\<close>

datatype pyval =
    PNone
  | PBool bool
  | PInt int
  | PFloat pyfloat
  | PStr string
  | PList "pyval list"
  | PDict "(string \<times> pyval) list"

type_synonym pydict = "(string \<times> pyval) list"

definition has_key :: "pydict \<Rightarrow> string \<Rightarrow> bool" where
  "has_key d k = (map_of d k \<noteq> None)"

fun is_list :: "pyval \<Rightarrow> bool" where
  "is_list (PList _) = True"
| "is_list _ = False"

fun is_dict :: "pyval \<Rightarrow> bool" where
  "is_dict (PDict _) = True"
| "is_dict _ = False"

text \<open>\<open>isinstance(v, (int, float))\<close>; it holds of \<open>True\<close> and \<open>False\<close> too.\<close>

fun is_number :: "pyval \<Rightarrow> bool" where
  "is_number (PInt _) = True"
| "is_number (PBool _) = True"
| "is_number (PFloat _) = True"
| "is_number _ = False"

fun as_num :: "pyval \<Rightarrow> py_error + pynum" where
  "as_num (PInt n) = Inr (NInt n)"
| "as_num (PBool b) = Inr (NInt (if b then 1 else 0))"
| "as_num (PFloat x) = Inr (NFloat x)"
| "as_num _ = Inl TypeError"


subsection \<open>String operations of the standard library\<close>

text \<open>\<open>str.isspace\<close> on one character (code points below 256).\<close>

definition is_space :: "char \<Rightarrow> bool" where
  "is_space c = (let n = (of_char c :: nat)
                 in (9 \<le> n \<and> n \<le> 13) \<or> (28 \<le> n \<and> n \<le> 32) \<or> n = 133 \<or> n = 160)"

definition strip :: "string \<Rightarrow> string" where
  "strip s = rev (dropWhile is_space (rev (dropWhile is_space s)))"

definition startswith :: "string \<Rightarrow> string \<Rightarrow> bool" where
  "startswith s p = (take (length p) s = p)"

definition endswith :: "string \<Rightarrow> string \<Rightarrow> bool" where
  "endswith s p = (length p \<le> length s \<and> drop (length s - length p) s = p)"

text \<open>\<open>p in s\<close> for two strings.\<close>

fun contains :: "string \<Rightarrow> string \<Rightarrow> bool" where
  "contains [] p = (p = [])"
| "contains (c # cs) p = (startswith (c # cs) p \<or> contains cs p)"

text \<open>\<open>sep.join(items)\<close>: every item has to be a string.\<close>

fun py_join :: "string \<Rightarrow> pyval list \<Rightarrow> py_error + string" where
  "py_join sep [] = Inr []"
| "py_join sep [PStr s] = Inr s"
| "py_join sep (PStr s # v # vs) = bnd (py_join sep (v # vs)) (\<lambda>r. Inr (s @ sep @ r))"
| "py_join sep (_ # vs) = Inl TypeError"

text \<open>
  \<open>int(s, base)\<close> for base 10 or 16: surrounding whitespace, a sign, for base 16 a
  prefix \<open>0x\<close> or \<open>0X\<close>, then digits, where single underscores may separate digits.
  The whitespace that \<open>int\<close> skips is that of \<open>str.isspace\<close> without the separators
  U+001C to U+001F. In base 10 a text of more than 4300 digits is refused (the default
  of \<open>sys.int_max_str_digits\<close>); base 16 has no such limit.
\<close>

definition is_int_space :: "char \<Rightarrow> bool" where
  "is_int_space c = (let n = (of_char c :: nat)
                     in (9 \<le> n \<and> n \<le> 13) \<or> n = 32 \<or> n = 133 \<or> n = 160)"

definition int_strip :: "string \<Rightarrow> string" where
  "int_strip s = rev (dropWhile is_int_space (rev (dropWhile is_int_space s)))"

definition digit_val :: "nat \<Rightarrow> char \<Rightarrow> int option" where
  "digit_val base c = (let n = (of_char c :: nat) in
     if 48 \<le> n \<and> n \<le> 57 \<and> n < 48 + base then Some (int n - 48)
     else if 97 \<le> n \<and> n \<le> 122 \<and> n < 87 + base then Some (int n - 87)
     else if 65 \<le> n \<and> n \<le> 90 \<and> n < 55 + base then Some (int n - 55)
     else None)"

fun digit_run :: "nat \<Rightarrow> int \<Rightarrow> string \<Rightarrow> int option" where
  "digit_run base acc [] = Some acc"
| "digit_run base acc [c] =
     (case digit_val base c of None \<Rightarrow> None | Some v \<Rightarrow> Some (int base * acc + v))"
| "digit_run base acc (c # d # ds) =
     (if c = CHR ''_''
      then (case digit_val base d of None \<Rightarrow> None
            | Some v \<Rightarrow> digit_run base (int base * acc + v) ds)
      else (case digit_val base c of None \<Rightarrow> None
            | Some v \<Rightarrow> digit_run base (int base * acc + v) (d # ds)))"

definition digits_body :: "nat \<Rightarrow> string \<Rightarrow> int option" where
  "digits_body base s = (case s of [] \<Rightarrow> None
     | c # cs \<Rightarrow> (case digit_val base c of None \<Rightarrow> None | Some v \<Rightarrow> digit_run base v cs))"

definition drop_sign :: "string \<Rightarrow> bool \<times> string" where
  "drop_sign t = (case t of [] \<Rightarrow> (False, [])
     | c # r \<Rightarrow> if c = CHR ''-'' then (True, r) else if c = CHR ''+'' then (False, r) else (False, t))"

definition drop_0x :: "string \<Rightarrow> string" where
  "drop_0x u = (case u of
       c # x # r \<Rightarrow>
         if c = CHR ''0'' \<and> (x = CHR ''x'' \<or> x = CHR ''X'')
         then (case r of [] \<Rightarrow> r | y # r' \<Rightarrow> if y = CHR ''_'' then r' else r)
         else u
     | _ \<Rightarrow> u)"

definition int_of_str :: "nat \<Rightarrow> string \<Rightarrow> py_error + int" where
  "int_of_str base s =
     (case drop_sign (int_strip s) of (neg, u) \<Rightarrow>
        (let body = (if base = 16 then drop_0x u else u) in
         case digits_body base body of
           None \<Rightarrow> Inl ValueError
         | Some v \<Rightarrow>
             if base = 10 \<and> 4300 < length (filter (\<lambda>c. c \<noteq> CHR ''_'') body)
             then Inl ValueError
             else Inr (if neg then - v else v)))"

definition int_base16 :: "string \<Rightarrow> py_error + int" where
  "int_base16 s = int_of_str 16 s"

definition int_base10 :: "string \<Rightarrow> py_error + int" where
  "int_base10 s = int_of_str 10 s"

subsection \<open>More string operations\<close>

text \<open>\<open>str.lower\<close>: the letters A to Z and the accented capitals of the alphabet.\<close>

definition lower_char :: "char \<Rightarrow> char" where
  "lower_char c = (let n = (of_char c :: nat) in
     if (65 \<le> n \<and> n \<le> 90) \<or> (192 \<le> n \<and> n \<le> 222 \<and> n \<noteq> 215) then char_of (n + 32) else c)"

definition upper_char :: "char \<Rightarrow> char" where
  "upper_char c = (let n = (of_char c :: nat) in
     if (97 \<le> n \<and> n \<le> 122) \<or> (224 \<le> n \<and> n \<le> 254 \<and> n \<noteq> 247) then char_of (n - 32) else c)"

definition lower :: "string \<Rightarrow> string" where
  "lower s = map lower_char s"

text \<open>
  \<open>s.replace(old, new)\<close> for a non-empty \<open>old\<close>: the occurrences are replaced from the
  left and do not overlap; \<open>k\<close> counts the characters of an occurrence still to skip.
\<close>

fun replace_from :: "string \<Rightarrow> string \<Rightarrow> nat \<Rightarrow> string \<Rightarrow> string" where
  "replace_from old new k [] = []"
| "replace_from old new k (c # cs) =
     (if 0 < k then replace_from old new (k - 1) cs
      else if startswith (c # cs) old then new @ replace_from old new (length old - 1) cs
      else c # replace_from old new 0 cs)"

definition replace :: "string \<Rightarrow> string \<Rightarrow> string \<Rightarrow> string" where
  "replace s old new = replace_from old new 0 s"

section \<open>Regular expressions\<close>

text \<open>
  The patterns of the program use literal characters, character sets and their
  complements, sequence, alternative, greedy and lazy repetition and one capturing group.
  A set lists its characters; \<open>NSym []\<close> is the dot under \<open>DOTALL\<close>.
\<close>

datatype rx =
    Eps
  | Sym "char list"
  | NSym "char list"
  | Seq rx rx
  | Alt rx rx
  | Star bool rx
  | Grp rx

text \<open>The characters of \<open>\s\<close> and of \<open>\d\<close>.\<close>

definition space_chars :: "char list" where
  "space_chars = map char_of [9, 10, 11, 12, 13, 28, 29, 30, 31, 32, 133, 160 :: nat]"

definition digit_chars :: "char list" where
  "digit_chars = ''0123456789''"

text \<open>Membership in a set; under \<open>IGNORECASE\<close> the other case of the character counts too.\<close>

definition in_set :: "bool \<Rightarrow> char list \<Rightarrow> char \<Rightarrow> bool" where
  "in_set ic cs c = (c \<in> set cs \<or> (ic \<and> (lower_char c \<in> set cs \<or> upper_char c \<in> set cs)))"

text \<open>
  \<open>ms ic r (s, g)\<close> lists, in the order in which a backtracking matcher tries them, the
  ways in which \<open>r\<close> matches a prefix of \<open>s\<close>: the rest of the text and the text of the
  group. A repetition does not repeat an iteration that consumed nothing.
\<close>

fun ms :: "bool \<Rightarrow> rx \<Rightarrow> string \<times> string option \<Rightarrow> (string \<times> string option) list" where
  "ms ic Eps st = [st]"
| "ms ic (Sym cs) (s, g) =
     (case s of [] \<Rightarrow> [] | c # r \<Rightarrow> if in_set ic cs c then [(r, g)] else [])"
| "ms ic (NSym cs) (s, g) =
     (case s of [] \<Rightarrow> [] | c # r \<Rightarrow> if \<not> in_set ic cs c then [(r, g)] else [])"
| "ms ic (Seq a b) st = concat (map (ms ic b) (ms ic a st))"
| "ms ic (Alt a b) st = ms ic a st @ ms ic b st"
| "ms ic (Grp a) (s, g) =
     map (\<lambda>st'. (fst st', Some (take (length s - length (fst st')) s))) (ms ic a (s, g))"
| "ms ic (Star greedy a) (s, g) =
     (let more = concat (map (ms ic (Star greedy a))
                   (filter (\<lambda>st'. length (fst st') < length s) (ms ic a (s, g))))
      in if greedy then more @ [(s, g)] else (s, g) # more)"

text \<open>A pattern without a capturing group.\<close>

fun no_grp :: "rx \<Rightarrow> bool" where
  "no_grp Eps = True"
| "no_grp (Sym cs) = True"
| "no_grp (NSym cs) = True"
| "no_grp (Seq a b) = (no_grp a \<and> no_grp b)"
| "no_grp (Alt a b) = (no_grp a \<and> no_grp b)"
| "no_grp (Star greedy a) = no_grp a"
| "no_grp (Grp a) = False"

definition Str :: "string \<Rightarrow> rx" where
  "Str s = foldr (\<lambda>c r. Seq (Sym [c]) r) s Eps"

definition Plus :: "rx \<Rightarrow> rx" where
  "Plus r = Seq r (Star True r)"

definition Opt :: "rx \<Rightarrow> rx" where
  "Opt r = Alt r Eps"

text \<open>The text of a match: the group if the pattern has one, the whole match otherwise.\<close>

definition match_text :: "string \<Rightarrow> string \<times> string option \<Rightarrow> string" where
  "match_text s st = (case snd st of Some x \<Rightarrow> x | None \<Rightarrow> take (length s - length (fst st)) s)"

text \<open>
  \<open>re.findall\<close>: the matches from left to right, without overlap; \<open>k\<close> counts the
  characters of the last match still to skip. After an empty match the search moves
  on by one character (no pattern of the program matches the empty string).
\<close>

fun findall_from :: "bool \<Rightarrow> rx \<Rightarrow> nat \<Rightarrow> string \<Rightarrow> string list" where
  "findall_from ic r k [] =
     (if 0 < k then []
      else case ms ic r ([], None) of [] \<Rightarrow> [] | st # _ \<Rightarrow> [match_text [] st])"
| "findall_from ic r k (c # cs) =
     (if 0 < k then findall_from ic r (k - 1) cs
      else case ms ic r (c # cs, None) of
             [] \<Rightarrow> findall_from ic r 0 cs
           | st # _ \<Rightarrow> match_text (c # cs) st
                 # findall_from ic r (length (c # cs) - length (fst st) - 1) cs)"

definition findall :: "bool \<Rightarrow> rx \<Rightarrow> string \<Rightarrow> string list" where
  "findall ic r s = findall_from ic r 0 s"

text \<open>
  \<open>re.split\<close> for a pattern without group: the pieces between the non-empty matches;
  \<open>cur\<close> holds the current piece reversed.
\<close>

fun split_from :: "rx \<Rightarrow> nat \<Rightarrow> string \<Rightarrow> string \<Rightarrow> string list" where
  "split_from r k cur [] = [rev cur]"
| "split_from r k cur (c # cs) =
     (if 0 < k then split_from r (k - 1) cur cs
      else case ms False r (c # cs, None) of
             [] \<Rightarrow> split_from r 0 (c # cur) cs
           | st # _ \<Rightarrow>
               if length (fst st) < length (c # cs)
               then rev cur # split_from r (length (c # cs) - length (fst st) - 1) [] cs
               else split_from r 0 (c # cur) cs)"

definition re_split :: "rx \<Rightarrow> string \<Rightarrow> string list" where
  "re_split r s = split_from r 0 [] s"


section \<open>Decoding JSON\<close>

text \<open>
  \<open>json.loads\<close> with its default settings: objects, arrays, strings, numbers, the
  literals \<open>true\<close>, \<open>false\<close> and \<open>null\<close>, and the constants \<open>NaN\<close>, \<open>Infinity\<close> and
  \<open>-Infinity\<close>. A text that is no JSON raises \<open>JSONDecodeError\<close>. An integer of more
  than 4300 digits raises \<open>ValueError\<close> where the decoder reaches it (the default of
  \<open>sys.int_max_str_digits\<close>; a number with a fraction or an exponent has no such limit).
  The decoder also raises \<open>RecursionError\<close> when arrays and objects are nested deeper
  than the call stack allows; that depth is no quantity of the text, so \<open>json_loads\<close>
  does not bound the nesting, and the pipeline below takes the decoder as a parameter.
\<close>

definition is_json_ws :: "char \<Rightarrow> bool" where
  "is_json_ws c = (c = CHR '' '' \<or> c = CHR 0x09 \<or> c = CHR 0x0A \<or> c = CHR 0x0D)"

definition skip_ws :: "string \<Rightarrow> string" where
  "skip_ws s = dropWhile is_json_ws s"

definition is_digit :: "char \<Rightarrow> bool" where
  "is_digit c = (c \<in> set digit_chars)"

text \<open>Four hexadecimal digits of a \<open>\uXXXX\<close> escape.\<close>

definition hex4 :: "string \<Rightarrow> int option" where
  "hex4 s = (case s of
      a # b # c # d # _ \<Rightarrow>
        (case (digit_val 16 a, digit_val 16 b, digit_val 16 c, digit_val 16 d) of
           (Some x, Some y, Some z, Some w) \<Rightarrow> Some (((x * 16 + y) * 16 + z) * 16 + w)
         | _ \<Rightarrow> None)
    | _ \<Rightarrow> None)"

text \<open>
  The character of a code point; a code point outside the alphabet of the model is
  read as a question mark.
\<close>

definition uni_char :: "int \<Rightarrow> char" where
  "uni_char cp = (if cp < 256 then char_of (nat cp) else CHR ''?'')"

definition simple_escape :: "char \<Rightarrow> char option" where
  "simple_escape e =
     (if e = CHR 0x22 \<or> e = CHR 0x5C \<or> e = CHR ''/'' then Some e
      else if e = CHR ''b'' then Some (CHR 0x08)
      else if e = CHR ''f'' then Some (CHR 0x0C)
      else if e = CHR ''n'' then Some (CHR 0x0A)
      else if e = CHR ''r'' then Some (CHR 0x0D)
      else if e = CHR ''t'' then Some (CHR 0x09)
      else None)"

definition cons_str :: "char \<Rightarrow> (string \<times> string) option \<Rightarrow> (string \<times> string) option" where
  "cons_str c r = (case r of None \<Rightarrow> None | Some (s, rest) \<Rightarrow> Some (c # s, rest))"

text \<open>
  The body of a string after its opening quote, up to the closing quote: control
  characters are refused, a high surrogate followed by a low one is one character.
\<close>

fun scan_string :: "string \<Rightarrow> (string \<times> string) option" where
  "scan_string [] = None"
| "scan_string (c # t) =
     (if c = CHR 0x22 then Some ([], t)
      else if c = CHR 0x5C then
        (case t of
           [] \<Rightarrow> None
         | e # u \<Rightarrow>
             if e = CHR ''u'' then
               (case hex4 u of
                  None \<Rightarrow> None
                | Some cp \<Rightarrow>
                    if 0xD800 \<le> cp \<and> cp \<le> 0xDBFF \<and> startswith (drop 4 u) [CHR 0x5C, CHR ''u'']
                    then (case hex4 (drop 6 u) of
                            None \<Rightarrow> None
                          | Some cp2 \<Rightarrow>
                              if 0xDC00 \<le> cp2 \<and> cp2 \<le> 0xDFFF
                              then cons_str (CHR ''?'') (scan_string (drop 10 u))
                              else cons_str (uni_char cp) (scan_string (drop 4 u)))
                    else cons_str (uni_char cp) (scan_string (drop 4 u)))
             else (case simple_escape e of
                     None \<Rightarrow> None
                   | Some x \<Rightarrow> cons_str x (scan_string u)))
      else if (of_char c :: nat) < 32 then None
      else cons_str c (scan_string t))"

text \<open>A run of digits as a number.\<close>

definition nat_of_digits :: "string \<Rightarrow> nat" where
  "nat_of_digits ds = foldl (\<lambda>a c. 10 * a + (of_char c - 48)) 0 ds"

text \<open>
  A number: \<open>-?(0|[1-9][0-9]*)\<close>, then an optional fraction \<open>\.[0-9]+\<close> and an optional
  exponent \<open>[eE][-+]?[0-9]+\<close>. Without fraction and exponent it is an int, otherwise the
  float nearest to its decimal value.
\<close>

definition scan_int_part :: "string \<Rightarrow> (string \<times> string) option" where
  "scan_int_part s = (case s of
      [] \<Rightarrow> None
    | c # r \<Rightarrow> if c = CHR ''0'' then Some ([c], r)
               else if is_digit c then Some (c # takeWhile is_digit r, dropWhile is_digit r)
               else None)"

definition scan_frac :: "string \<Rightarrow> string option \<times> string" where
  "scan_frac s = (case s of
      c # d # r \<Rightarrow> if c = CHR ''.'' \<and> is_digit d
                   then (Some (d # takeWhile is_digit r), dropWhile is_digit r) else (None, s)
    | _ \<Rightarrow> (None, s))"

definition scan_exp :: "string \<Rightarrow> int option \<times> string" where
  "scan_exp s = (case s of
      [] \<Rightarrow> (None, s)
    | c # r \<Rightarrow>
        if c = CHR ''e'' \<or> c = CHR ''E'' then
          (case r of
             [] \<Rightarrow> (None, s)
           | d # r' \<Rightarrow>
               if is_digit d
               then (Some (int (nat_of_digits (takeWhile is_digit r))), dropWhile is_digit r)
               else if (d = CHR ''+'' \<or> d = CHR ''-'') \<and> r' \<noteq> [] \<and> is_digit (hd r')
               then (Some ((if d = CHR ''-'' then - 1 else 1)
                             * int (nat_of_digits (takeWhile is_digit r'))),
                     dropWhile is_digit r')
               else (None, s))
        else (None, s))"

definition scan_number :: "string \<Rightarrow> py_error + pyval \<times> string" where
  "scan_number s =
     (let neg = (s \<noteq> [] \<and> hd s = CHR ''-'');
          sgn = (if neg then - 1 else 1 :: int)
      in case scan_int_part (if neg then tl s else s) of
           None \<Rightarrow> Inl JSONDecodeError
         | Some (ip, r1) \<Rightarrow>
             (case scan_frac r1 of (fp, r2) \<Rightarrow>
               (case scan_exp r2 of (ex, r3) \<Rightarrow>
                  if fp = None \<and> ex = None
                  then (if 4300 < length ip then Inl ValueError
                        else Inr (PInt (sgn * int (nat_of_digits ip)), r1))
                  else
                    let f = (case fp of None \<Rightarrow> [] | Some ds \<Rightarrow> ds);
                        e = (case ex of None \<Rightarrow> 0 | Some x \<Rightarrow> x);
                        q = (of_nat (nat_of_digits ip) + of_nat (nat_of_digits f) / 10 ^ length f)
                              * 10 powi e
                    in Inr (PFloat (rnd64 (of_int sgn * q)), r3))))"

text \<open>\<open>dict(pairs)\<close>: a later value for a key replaces the earlier one in its place.\<close>

definition dict_of :: "(string \<times> pyval) list \<Rightarrow> pydict" where
  "dict_of ps = foldl (\<lambda>d kv. AList.update (fst kv) (snd kv) d) [] ps"

lemma scan_string_length: "scan_string s = Some (x, r) \<Longrightarrow> length r < length s"
proof (induction s arbitrary: x r rule: scan_string.induct)
  case 1
  then show ?case by simp
next
  case (2 c t)
  then show ?case
    by (auto simp: cons_str_def split: if_splits list.splits option.splits prod.splits)
       (fastforce dest: less_le_trans [OF _ length_drop [THEN eq_imp_le]])+
qed


lemma skip_ws_length: "length (skip_ws s) \<le> length s"
  by (simp add: skip_ws_def length_dropWhile_le)

lemma skip_ws_Cons_length: "skip_ws r = d # t \<Longrightarrow> length t < length r"
  using skip_ws_length [of r] by simp

text \<open>
  A value, the elements of an array after its opening bracket, and the members of an
  object after its opening brace. A value that is parsed consumes input; the tests
  \<open>length r < length s\<close> record this for the recursion and never fail.
\<close>

function parse_value :: "string \<Rightarrow> py_error + pyval \<times> string"
  and parse_elements :: "string \<Rightarrow> py_error + pyval list \<times> string"
  and parse_members :: "string \<Rightarrow> py_error + (string \<times> pyval) list \<times> string" where
  "parse_value s =
     (case s of
        [] \<Rightarrow> Inl JSONDecodeError
      | c # t \<Rightarrow>
          if c = CHR 0x22 then
            (case scan_string t of
               None \<Rightarrow> Inl JSONDecodeError
             | Some (x, r) \<Rightarrow> Inr (PStr x, r))
          else if c = CHR ''{'' then
            (case skip_ws t of
               [] \<Rightarrow> Inl JSONDecodeError
             | d # r \<Rightarrow>
                 if d = CHR ''}'' then Inr (PDict [], r)
                 else (case parse_members (skip_ws t) of
                         Inl e \<Rightarrow> Inl e
                       | Inr (ps, r') \<Rightarrow> Inr (PDict (dict_of ps), r')))
          else if c = CHR ''['' then
            (case skip_ws t of
               [] \<Rightarrow> Inl JSONDecodeError
             | d # r \<Rightarrow>
                 if d = CHR '']'' then Inr (PList [], r)
                 else (case parse_elements (skip_ws t) of
                         Inl e \<Rightarrow> Inl e
                       | Inr (vs, r') \<Rightarrow> Inr (PList vs, r')))
          else if startswith s ''null'' then Inr (PNone, drop 4 s)
          else if startswith s ''true'' then Inr (PBool True, drop 4 s)
          else if startswith s ''false'' then Inr (PBool False, drop 5 s)
          else if startswith s ''NaN'' then Inr (PFloat NaN, drop 3 s)
          else if startswith s ''Infinity'' then Inr (PFloat PosInf, drop 8 s)
          else if startswith s ''-Infinity'' then Inr (PFloat NegInf, drop 9 s)
          else scan_number s)"
| "parse_elements s =
     (case parse_value s of
        Inl e \<Rightarrow> Inl e
      | Inr (v, r) \<Rightarrow>
          if length r < length s then
            (case skip_ws r of
               [] \<Rightarrow> Inl JSONDecodeError
             | d # t \<Rightarrow>
                 if d = CHR '']'' then Inr ([v], t)
                 else if d = CHR '','' then
                   (case parse_elements (skip_ws t) of
                      Inl e \<Rightarrow> Inl e
                    | Inr (vs, u) \<Rightarrow> Inr (v # vs, u))
                 else Inl JSONDecodeError)
          else Inl JSONDecodeError)"
| "parse_members s =
     (case s of
        [] \<Rightarrow> Inl JSONDecodeError
      | q # t \<Rightarrow>
          if q = CHR 0x22 then
            (case scan_string t of
               None \<Rightarrow> Inl JSONDecodeError
             | Some (key, r) \<Rightarrow>
                 (case skip_ws r of
                    [] \<Rightarrow> Inl JSONDecodeError
                  | c # r2 \<Rightarrow>
                      if c = CHR '':'' then
                        (case parse_value (skip_ws r2) of
                           Inl e \<Rightarrow> Inl e
                         | Inr (v, r3) \<Rightarrow>
                             if length r3 < length s then
                               (case skip_ws r3 of
                                  [] \<Rightarrow> Inl JSONDecodeError
                                | d # r4 \<Rightarrow>
                                    if d = CHR ''}'' then Inr ([(key, v)], r4)
                                    else if d = CHR '','' then
                                      (case parse_members (skip_ws r4) of
                                         Inl e \<Rightarrow> Inl e
                                       | Inr (ps, u) \<Rightarrow> Inr ((key, v) # ps, u))
                                    else Inl JSONDecodeError)
                             else Inl JSONDecodeError)
                      else Inl JSONDecodeError))
          else Inl JSONDecodeError)"
  by pat_completeness auto

termination parse_value
proof (relation "measure (\<lambda>x. case x of Inl s \<Rightarrow> 2 * length s
                                  | Inr (Inl s) \<Rightarrow> 2 * length s + 1
                                  | Inr (Inr s) \<Rightarrow> 2 * length s + 1)", goal_cases)
  case 1
  then show ?case by simp
next
  case (2 s c t d r)
  then show ?case using skip_ws_length [of t] by simp
next
  case (3 s c t d r)
  then show ?case using skip_ws_length [of t] by simp
next
  case (4 s)
  then show ?case by simp
next
  case (5 s x v r d t)
  then show ?case
    using skip_ws_length [of t] skip_ws_Cons_length [of r d t] by simp
next
  case (6 s q t x key r c r2)
  then show ?case
    using skip_ws_length [of r2] skip_ws_Cons_length [of r c r2] scan_string_length [of t key r]
    by simp
next
  case (7 s q t x key r c r2 y v r3 d r4)
  then show ?case
    using skip_ws_length [of r4] skip_ws_Cons_length [of r3 d r4] by simp
qed

text \<open>\<open>json.loads\<close>: whitespace, one value, whitespace, and nothing more.\<close>

definition json_loads :: "string \<Rightarrow> py_error + pyval" where
  "json_loads s =
     (case parse_value (skip_ws s) of
        Inl e \<Rightarrow> Inl e
      | Inr (v, r) \<Rightarrow> if skip_ws r = [] then Inr v else Inl JSONDecodeError)"

section \<open>The shape check\<close>

text \<open>
  \<open>field in result\<close>: a key of a dictionary, an element of a list, a substring of a
  string; any other value is not iterable.
\<close>

fun py_in :: "string \<Rightarrow> pyval \<Rightarrow> py_error + bool" where
  "py_in k (PDict d) = Inr (has_key d k)"
| "py_in k (PList xs) = Inr (PStr k \<in> set xs)"
| "py_in k (PStr s) = Inr (contains s k)"
| "py_in k _ = Inl TypeError"

text \<open>
  \<open>_is_valid_nutrition_result\<close>: both required keys are present (\<open>all\<close> stops at the
  first missing one), \<open>foods_detected\<close> is a list, and the list is not empty. Only a
  dictionary has \<open>get\<close>.
\<close>

definition is_valid_nutrition_result :: "pyval \<Rightarrow> py_error + bool" where
  "is_valid_nutrition_result result =
     bnd (py_in ''foods_detected'' result) (\<lambda>a.
       if \<not> a then Inr False
       else bnd (py_in ''total_calories'' result) (\<lambda>b.
         if \<not> b then Inr False
         else (case result of
                 PDict d \<Rightarrow>
                   (case map_of d ''foods_detected'' of
                      Some (PList fs) \<Rightarrow> Inr (0 < length fs)
                    | _ \<Rightarrow> Inr False)
               | _ \<Rightarrow> Inl AttributeError)))"

section \<open>The validator\<close>

text \<open>\<open>int(x * c / d)\<close> and \<open>int(x / d)\<close>, as the macro formulas compute them.\<close>

definition macro :: "pynum \<Rightarrow> pyfloat \<Rightarrow> int \<Rightarrow> py_error + int" where
  "macro x c d =
     bnd (num_mul_f x c) (\<lambda>y. bnd (num_div_i (NFloat y) d) py_int)"

definition per :: "pynum \<Rightarrow> int \<Rightarrow> py_error + int" where
  "per x d = bnd (num_div_i x d) py_int"

text \<open>
  The dictionary literal that \<open>_validate_llm_result\<close>, \<open>_extract_from_llm_response\<close>
  and \<open>_create_smart_fallback\<close> all build for \<open>nutritional_breakdown\<close>.
\<close>

definition derived_breakdown :: "pyval \<Rightarrow> py_error + pyval" where
  "derived_breakdown total_calories =
     bnd (as_num total_calories) (\<lambda>x.
     bnd (macro x (lit (16 / 100)) 4) (\<lambda>protein.
     bnd (macro x (lit (54 / 100)) 4) (\<lambda>carbohydrates.
     bnd (macro x (lit (30 / 100)) 9) (\<lambda>fat.
     bnd (per x 120) (\<lambda>fiber.
     bnd (per x 150) (\<lambda>sugar.
       Inr (PDict
         [(''calories'', total_calories),
          (''protein'', PStr (grams protein)),
          (''carbohydrates'', PStr (grams carbohydrates)),
          (''fat'', PStr (grams fat)),
          (''fiber'', PStr (grams (max 4 fiber))),
          (''sugar'', PStr (grams (max 3 sugar)))])))))))"

text \<open>A key is present with a value of the wanted type.\<close>

definition present_as :: "(pyval \<Rightarrow> bool) \<Rightarrow> pydict \<Rightarrow> string \<Rightarrow> bool" where
  "present_as P d k = (case map_of d k of None \<Rightarrow> False | Some v \<Rightarrow> P v)"

definition ensure_foods_detected :: "pydict \<Rightarrow> pydict" where
  "ensure_foods_detected result =
     (if \<not> present_as is_list result ''foods_detected''
      then AList.update ''foods_detected'' (PList [PStr ''Makanan dari analisis AI'']) result
      else result)"

definition ensure_total_calories :: "pydict \<Rightarrow> pydict" where
  "ensure_total_calories result =
     (if \<not> present_as is_number result ''total_calories''
      then AList.update ''total_calories'' (PInt 450) result
      else result)"

definition ensure_confidence_score :: "pydict \<Rightarrow> pydict" where
  "ensure_confidence_score result =
     (if \<not> has_key result ''confidence_score''
      then AList.update ''confidence_score'' (PFloat (lit (8 / 10))) result
      else result)"

text \<open>\<open>result["total_calories"]\<close> raises \<open>KeyError\<close> on a missing key.\<close>

definition subscript :: "pydict \<Rightarrow> string \<Rightarrow> py_error + pyval" where
  "subscript d k = (case map_of d k of None \<Rightarrow> Inl KeyError | Some v \<Rightarrow> Inr v)"

definition ensure_nutritional_breakdown :: "pydict \<Rightarrow> py_error + pydict" where
  "ensure_nutritional_breakdown result =
     (if \<not> present_as is_dict result ''nutritional_breakdown''
      then bnd (subscript result ''total_calories'') (\<lambda>total_calories.
           bnd (derived_breakdown total_calories) (\<lambda>b.
             Inr (AList.update ''nutritional_breakdown'' b result)))
      else Inr result)"

fun portion_ratio :: "nat \<Rightarrow> pyfloat" where
  "portion_ratio i = (if i = 0 then lit (6 / 10) else if i = 1 then lit (3 / 10) else lit (1 / 10))"

text \<open>\<open>['utama', 'sedang', 'kecil'][i]\<close>.\<close>

definition portion_word :: "nat \<Rightarrow> py_error + string" where
  "portion_word i = (if i < 3 then Inr ([''utama'', ''sedang'', ''kecil''] ! i) else Inl IndexError)"

text \<open>\<open>int(total_cal * portion_ratio * c / d)\<close>.\<close>

definition macro2 :: "pynum \<Rightarrow> pyfloat \<Rightarrow> pyfloat \<Rightarrow> int \<Rightarrow> py_error + int" where
  "macro2 x r c d = bnd (num_mul_f x r) (\<lambda>y. macro (NFloat y) c d)"

definition food_entry :: "pynum \<Rightarrow> nat \<Rightarrow> pyval \<Rightarrow> py_error + pyval" where
  "food_entry total_cal i food_name =
     bnd (portion_word i) (\<lambda>w.
     bnd (bnd (num_mul_f total_cal (portion_ratio i)) py_int) (\<lambda>calories.
     bnd (macro2 total_cal (portion_ratio i) (lit (15 / 100)) 4) (\<lambda>protein.
     bnd (macro2 total_cal (portion_ratio i) (lit (55 / 100)) 4) (\<lambda>carbs.
     bnd (macro2 total_cal (portion_ratio i) (lit (30 / 100)) 9) (\<lambda>fat.
       Inr (PDict
         [(''name'', food_name),
          (''estimated_portion'', PStr (''1 porsi '' @ w)),
          (''calories'', PInt calories),
          (''protein'', PStr (grams protein)),
          (''carbs'', PStr (grams carbs)),
          (''fat'', PStr (grams fat))]))))))"

text \<open>The loop \<open>for i, food_name in enumerate(foods[:3])\<close>, from index \<open>i\<close> on.\<close>

fun food_entries :: "pynum \<Rightarrow> nat \<Rightarrow> pyval list \<Rightarrow> py_error + pyval list" where
  "food_entries total_cal i [] = Inr []"
| "food_entries total_cal i (f # fs) =
     bnd (food_entry total_cal i f) (\<lambda>e.
     bnd (food_entries total_cal (Suc i) fs) (\<lambda>es. Inr (e # es)))"

text \<open>
  \<open>foods[:3]\<close> and the iteration over it: a list gives its first three elements, a
  string its first three characters; nothing else can be sliced.
\<close>

fun first_three :: "pyval \<Rightarrow> py_error + pyval list" where
  "first_three (PList fs) = Inr (take 3 fs)"
| "first_three (PStr s) = Inr (map (\<lambda>c. PStr [c]) (take 3 s))"
| "first_three _ = Inl TypeError"

definition get_or :: "pydict \<Rightarrow> string \<Rightarrow> pyval \<Rightarrow> pyval" where
  "get_or d k dflt = (case map_of d k of None \<Rightarrow> dflt | Some v \<Rightarrow> v)"

definition ensure_individual_foods :: "pydict \<Rightarrow> py_error + pydict" where
  "ensure_individual_foods result =
     (if \<not> present_as is_list result ''individual_foods''
      then bnd (first_three (get_or result ''foods_detected'' (PList [PStr ''Makanan utama'']))) (\<lambda>foods.
           bnd (case foods of [] \<Rightarrow> Inr []
                | _ \<Rightarrow> bnd (as_num (get_or result ''total_calories'' (PInt 450)))
                         (\<lambda>total_cal. food_entries total_cal 0 foods)) (\<lambda>entries.
             Inr (AList.update ''individual_foods'' (PList entries) result)))
      else Inr result)"

text \<open>The argument of \<open>", ".join\<close>: a list is joined, a string is joined character-wise.\<close>

fun join_arg :: "pyval \<Rightarrow> py_error + pyval list" where
  "join_arg (PList fs) = Inr fs"
| "join_arg (PStr s) = Inr (map (\<lambda>c. PStr [c]) s)"
| "join_arg (PDict d) = Inr (map (\<lambda>kv. PStr (fst kv)) d)"
| "join_arg _ = Inl TypeError"

definition ensure_health_tips :: "pydict \<Rightarrow> py_error + pydict" where
  "ensure_health_tips result =
     (if \<not> present_as is_list result ''health_tips''
      then bnd (join_arg (get_or result ''foods_detected'' (PList []))) (\<lambda>items.
           bnd (py_join '', '' items) (\<lambda>foods_str.
             Inr (AList.update ''health_tips''
                    (PList [PStr (''Kombinasi '' @ foods_str @ '' memberikan energi yang baik''),
                            PStr ''Pastikan keseimbangan nutrisi harian'',
                            PStr ''Minum air putih yang cukup'']) result)))
      else Inr result)"

text \<open>\<open>_validate_llm_result\<close>: the six blocks in the order of the source.\<close>

definition validate_llm_result :: "pydict \<Rightarrow> py_error + pydict" where
  "validate_llm_result result =
     bnd (ensure_nutritional_breakdown
            (ensure_confidence_score (ensure_total_calories (ensure_foods_detected result))))
       (\<lambda>r. bnd (ensure_individual_foods r) ensure_health_tips)"


section \<open>The deterministic fallback\<close>

text \<open>
  One entry of \<open>individual_foods\<close> as the fallback and the heuristic extraction write
  it: \<open>int(total * a)\<close> calories, and \<open>int(total * p / 4)\<close>, \<open>int(total * c / 4)\<close>
  and \<open>int(total * f / 9)\<close> grams.
\<close>

definition fixed_entry ::
  "pyval \<Rightarrow> string \<Rightarrow> pynum \<Rightarrow> rat \<Rightarrow> rat \<Rightarrow> rat \<Rightarrow> rat \<Rightarrow> py_error + pyval" where
  "fixed_entry name portion total_cal a p c f =
     bnd (bnd (num_mul_f total_cal (lit a)) py_int) (\<lambda>calories.
     bnd (macro total_cal (lit p) 4) (\<lambda>protein.
     bnd (macro total_cal (lit c) 4) (\<lambda>carbs.
     bnd (macro total_cal (lit f) 9) (\<lambda>fat.
       Inr (PDict
         [(''name'', name),
          (''estimated_portion'', PStr portion),
          (''calories'', PInt calories),
          (''protein'', PStr (grams protein)),
          (''carbs'', PStr (grams carbs)),
          (''fat'', PStr (grams fat))])))))"

definition food_combinations :: "(string \<times> string \<times> string \<times> int) list" where
  "food_combinations =
     [(''Nasi putih'', ''Ayam goreng'', ''Sayur bayam'', 580),
      (''Gado-gado'', ''Kerupuk'', ''Es teh'', 520),
      (''Mie ayam'', ''Pangsit'', ''Es jeruk'', 620),
      (''Rendang'', ''Nasi putih'', ''Sayur asem'', 720),
      (''Soto ayam'', ''Nasi putih'', ''Emping'', 480),
      (''Gudeg'', ''Tahu bacem'', ''Telur'', 650),
      (''Pecel lele'', ''Nasi putih'', ''Sambal'', 590)]"

text \<open>
  Each note of the source opens with four code points: U+00F0 U+0178 U+017D U+00AF in
  the fallback, U+00F0 U+0178 U+00A4 U+2013 after a JSON stage and U+00F0 U+0178 U+00A7
  U+00A0 in the heuristic extraction. A code point of 256 or more lies outside the
  alphabet of the model and is written as a question mark, as \<open>uni_char\<close> does.
\<close>

definition mark_target :: string where
  "mark_target = [CHR 0xF0, CHR ''?'', CHR ''?'', CHR 0xAF]"

definition mark_robot :: string where
  "mark_robot = [CHR 0xF0, CHR ''?'', CHR 0xA4, CHR ''?'']"

definition mark_brain :: string where
  "mark_brain = [CHR 0xF0, CHR ''?'', CHR 0xA7, CHR 0xA0]"

text \<open>The record that the fallback builds from the selected table entry.\<close>

definition fallback_record ::
  "string \<times> string \<times> string \<times> int \<Rightarrow> string \<Rightarrow> py_error + pydict" where
  "fallback_record selected image_hash =
     (case selected of (f0, f1, f2, total_cal) \<Rightarrow>
        bnd (derived_breakdown (PInt total_cal)) (\<lambda>breakdown.
        bnd (fixed_entry (PStr f0) ''1 porsi utama'' (NInt total_cal)
               (6 / 10) (1 / 10) (35 / 100) (18 / 100)) (\<lambda>e0.
        bnd (fixed_entry (PStr f1) ''1 porsi sedang'' (NInt total_cal)
               (3 / 10) (5 / 100) (15 / 100) (8 / 100)) (\<lambda>e1.
        bnd (fixed_entry (PStr f2) ''1 porsi kecil'' (NInt total_cal)
               (1 / 10) (1 / 100) (4 / 100) (4 / 100)) (\<lambda>e2.
          Inr [(''foods_detected'', PList [PStr f0, PStr f1, PStr f2]),
               (''total_calories'', PInt total_cal),
               (''nutritional_breakdown'', breakdown),
               (''individual_foods'', PList [e0, e1, e2]),
               (''health_tips'',
                  PList [PStr (''Kombinasi '' @ f0 @ '' dan '' @ f1 @ '' memberikan energi yang baik''),
                         PStr ''Pastikan keseimbangan nutrisi dengan sayuran'',
                         PStr ''Minum air putih yang cukup untuk hidrasi'']),
               (''confidence_score'', PFloat (lit (75 / 100))),
               (''note'', PStr (mark_target @ '' Analisis konsisten berdasarkan foto (ID: ''
                                  @ image_hash @ '')'')),
               (''analysis_source'', PStr ''smart_fallback'')])))))"

text \<open>
  \<open>_create_smart_fallback\<close>: \<open>hash_int = int(image_hash, 16) if image_hash else 0\<close>,
  then the entry at \<open>hash_int % len(food_combinations)\<close>; Python's \<open>%\<close> with a positive
  modulus is never negative.
\<close>

definition create_smart_fallback :: "string \<Rightarrow> py_error + pydict" where
  "create_smart_fallback image_hash =
     bnd (if image_hash \<noteq> [] then int_base16 image_hash else Inr 0) (\<lambda>hash_int.
       fallback_record
         (food_combinations ! nat (hash_int mod int (length food_combinations)))
         image_hash)"

section \<open>Heuristic extraction\<close>

text \<open>The character sets of the patterns.\<close>

definition colon_space :: "char list" where
  "colon_space = CHR '':'' # space_chars"

definition quote_colon_space :: "char list" where
  "quote_colon_space = [CHR 0x22, CHR '':''] @ space_chars"

definition quote_colon_space_bracket :: "char list" where
  "quote_colon_space_bracket = [CHR 0x22, CHR '':''] @ space_chars @ ''[''"

text \<open>\<open>word[:\s]*([^.\n]+)\<close>.\<close>

definition keyword_line :: "string \<Rightarrow> rx" where
  "keyword_line w = Seq (Str w) (Seq (Star True (Sym colon_space)) (Grp (Plus (NSym [CHR ''.'', CHR 0x0A]))))"

text \<open>\<open>word[\":\s\[]*([^\]]+)\<close>.\<close>

definition keyword_array :: "string \<Rightarrow> rx" where
  "keyword_array w = Seq (Str w) (Seq (Star True (Sym quote_colon_space_bracket)) (Grp (Plus (NSym '']''))))"

text \<open>\<open>(\d{3,4})\<close>.\<close>

definition digits34 :: rx where
  "digits34 = Grp (Seq (Sym digit_chars) (Seq (Sym digit_chars) (Seq (Sym digit_chars) (Opt (Sym digit_chars)))))"

definition food_patterns :: "rx list" where
  "food_patterns =
     [keyword_line ''makanan'', keyword_line ''terdeteksi'', keyword_line ''terdiri'',
      keyword_line ''menu'', keyword_array ''foods_detected'']"

definition calorie_patterns :: "rx list" where
  "calorie_patterns =
     [Seq (Str ''total_calories'') (Seq (Star True (Sym quote_colon_space)) digits34),
      Seq digits34 (Seq (Star True (Sym space_chars)) (Seq (Opt (Sym ''k'')) (Str ''cal''))),
      Seq (Str ''kalori'') (Seq (Star True (Sym colon_space)) digits34),
      Seq (Str ''calories'') (Seq (Star True (Sym quote_colon_space)) digits34)]"

definition tip_patterns :: "rx list" where
  "tip_patterns =
     [keyword_array ''health_tips'', keyword_line ''saran'', keyword_line ''tips'']"

text \<open>\<open>matches[0].strip().replace('"', '').replace("'", "")\<close>.\<close>

definition unquote :: "string \<Rightarrow> string" where
  "unquote m = replace (replace (strip m) [CHR 0x22] []) [CHR 0x27] []"

text \<open>
  The loop over the food patterns: the first pattern that matches and whose first match
  splits into at least one name longer than two characters gives the names, at most three.
\<close>

fun detect_foods :: "rx list \<Rightarrow> string \<Rightarrow> string list" where
  "detect_foods [] response = []"
| "detect_foods (pattern # ps) response =
     (case findall True pattern response of
        [] \<Rightarrow> detect_foods ps response
      | m # _ \<Rightarrow>
          (let foods = filter (\<lambda>f. f \<noteq> [] \<and> 2 < length f)
                         (map strip (re_split (Plus (Sym ('',;dan'' @ space_chars))) (unquote m)))
           in if foods \<noteq> [] then take 3 foods else detect_foods ps response))"

text \<open>
  The loop over the calorie patterns: the first match of the first pattern that
  matches, read as an int; a match that is no int moves on to the next pattern.
\<close>

fun detect_calories :: "rx list \<Rightarrow> string \<Rightarrow> int \<Rightarrow> int" where
  "detect_calories [] response dflt = dflt"
| "detect_calories (pattern # ps) response dflt =
     (case findall True pattern response of
        [] \<Rightarrow> detect_calories ps response dflt
      | m # _ \<Rightarrow>
          (case int_base10 m of
             Inr n \<Rightarrow> n
           | Inl _ \<Rightarrow> detect_calories ps response dflt))"

fun detect_tips :: "rx list \<Rightarrow> string \<Rightarrow> string list \<Rightarrow> string list" where
  "detect_tips [] response dflt = dflt"
| "detect_tips (pattern # ps) response dflt =
     (case findall True pattern response of
        [] \<Rightarrow> detect_tips ps response dflt
      | m # _ \<Rightarrow>
          (let tips = filter (\<lambda>t. t \<noteq> []) (map strip (re_split (Plus (Sym '',;'')) (unquote m)))
           in if tips \<noteq> [] then take 3 tips else detect_tips ps response dflt))"

text \<open>The body of the \<open>try\<close> block of \<open>_extract_from_llm_response\<close>.\<close>

definition extract_body :: "string \<Rightarrow> string \<Rightarrow> py_error + pydict" where
  "extract_body response image_hash =
     (let found = detect_foods food_patterns response;
          detected_foods = (if found = [] then [''Makanan dari foto''] else found);
          total_calories = detect_calories calorie_patterns response 450;
          health_tips = detect_tips tip_patterns response
            [''Konsumsi dengan porsi seimbang'', ''Perbanyak sayuran'', ''Minum air putih cukup'']
      in
        bnd (derived_breakdown (PInt total_calories)) (\<lambda>breakdown.
        bnd (fixed_entry
               (PStr (if detected_foods \<noteq> [] then hd detected_foods else ''Makanan utama''))
               ''1 porsi utama'' (NInt total_calories)
               (65 / 100) (1 / 10) (35 / 100) (2 / 10)) (\<lambda>e0.
        bnd (fixed_entry
               (PStr (if 1 < length detected_foods then detected_foods ! 1 else ''Makanan pendamping''))
               ''1 porsi kecil'' (NInt total_calories)
               (35 / 100) (6 / 100) (19 / 100) (1 / 10)) (\<lambda>e1.
          Inr [(''foods_detected'', PList (map PStr detected_foods)),
               (''total_calories'', PInt total_calories),
               (''nutritional_breakdown'', breakdown),
               (''individual_foods'', PList [e0, e1]),
               (''health_tips'', PList (map PStr health_tips)),
               (''confidence_score'', PFloat (lit (75 / 100))),
               (''note'', PStr (mark_brain @ '' Ekstraksi manual dari respons AI (ID: ''
                                  @ image_hash @ '')'')),
               (''analysis_source'', PStr ''extracted_llm''),
               (''image_id'', PStr image_hash)]))))"

text \<open>\<open>_extract_from_llm_response\<close>: any exception of the body leads to the fallback.\<close>

definition extract_from_llm_response :: "string \<Rightarrow> string \<Rightarrow> py_error + pydict" where
  "extract_from_llm_response response image_hash =
     (case extract_body response image_hash of
        Inr d \<Rightarrow> Inr d
      | Inl _ \<Rightarrow> create_smart_fallback image_hash)"

section \<open>The recovery pipeline\<close>

text \<open>
  What the attempt on one candidate text does: it returns a record, raises, or lets the
  pipeline go on.
\<close>

datatype outcome = Return pydict | Raise py_error | Next

text \<open>An exception inside the \<open>try\<close> of a candidate: \<open>JSONDecodeError\<close> is caught there.\<close>

definition escape :: "py_error \<Rightarrow> outcome" where
  "escape e = (if e = JSONDecodeError then Next else Raise e)"

text \<open>The three assignments after the validator.\<close>

definition finish :: "pydict \<Rightarrow> string \<Rightarrow> string \<Rightarrow> string \<Rightarrow> pydict" where
  "finish validated_result label tag image_hash =
     AList.update ''image_id'' (PStr image_hash)
       (AList.update ''analysis_source'' (PStr tag)
         (AList.update ''note'' (PStr (mark_robot @ '' '' @ label @ '' (ID: '' @ image_hash @ '')''))
            validated_result))"

text \<open>
  One candidate: decode it, check its shape, validate it. Only a dictionary passes the
  shape check, so the validator is applied to a dictionary. The decoder is the
  parameter \<open>loads\<close>: the pipeline depends on \<open>json.loads\<close> only through what it
  returns or raises on each candidate.
\<close>

type_synonym decoder = "string \<Rightarrow> py_error + pyval"

definition try_candidate_with :: "decoder \<Rightarrow> string \<Rightarrow> string \<Rightarrow> string \<Rightarrow> string \<Rightarrow> outcome" where
  "try_candidate_with loads text label tag image_hash =
     (case loads text of
        Inl e \<Rightarrow> escape e
      | Inr parsed_result \<Rightarrow>
          (case is_valid_nutrition_result parsed_result of
             Inl e \<Rightarrow> escape e
           | Inr ok \<Rightarrow>
               if ok then
                 (case parsed_result of
                    PDict d \<Rightarrow>
                      (case validate_llm_result d of
                         Inl e \<Rightarrow> escape e
                       | Inr validated_result \<Rightarrow> Return (finish validated_result label tag image_hash))
                  | _ \<Rightarrow> escape AttributeError)
               else Next))"

text \<open>The \<open>for\<close> loops over the candidates of a method.\<close>

fun try_each_with :: "decoder \<Rightarrow> string list \<Rightarrow> string \<Rightarrow> string \<Rightarrow> string \<Rightarrow> outcome" where
  "try_each_with loads [] label tag image_hash = Next"
| "try_each_with loads (c # cs) label tag image_hash =
     (case try_candidate_with loads (strip c) label tag image_hash of
        Next \<Rightarrow> try_each_with loads cs label tag image_hash
      | out \<Rightarrow> out)"

text \<open>\<open>```(?:json)?\s*(\{.*?\})\s*```\<close> with \<open>DOTALL\<close> and \<open>IGNORECASE\<close>.\<close>

definition code_block_pattern :: rx where
  "code_block_pattern =
     Seq (Str ''```'') (Seq (Opt (Str ''json'')) (Seq (Star True (Sym space_chars))
       (Seq (Grp (Seq (Sym ''{'') (Seq (Star False (NSym [])) (Sym ''}''))))
         (Seq (Star True (Sym space_chars)) (Str ''```'')))))"

text \<open>\<open>\{(?:[^{}]|(?:\{[^{}]*\})*)*\}\<close>.\<close>

definition json_pattern :: rx where
  "json_pattern =
     Seq (Sym ''{'')
       (Seq (Star True (Alt (NSym ''{}'')
               (Star True (Seq (Sym ''{'') (Seq (Star True (NSym ''{}'')) (Sym ''}''))))))
          (Sym ''}''))"

text \<open>Method 1: the cleaned response, when it starts and ends with a brace.\<close>

definition direct_stage_with :: "decoder \<Rightarrow> string \<Rightarrow> string \<Rightarrow> outcome" where
  "direct_stage_with loads response_text image_hash =
     (let response_cleaned = replace (replace (strip response_text) ''```json'' []) ''```'' []
      in if startswith response_cleaned ''{'' \<and> endswith response_cleaned ''}''
         then try_candidate_with loads response_cleaned ''Direct JSON parse'' ''direct_json'' image_hash
         else Next)"

text \<open>Method 2: the fenced code blocks, in the order of their appearance.\<close>

definition code_block_stage_with :: "decoder \<Rightarrow> string \<Rightarrow> string \<Rightarrow> outcome" where
  "code_block_stage_with loads response_text image_hash =
     try_each_with loads (findall True code_block_pattern response_text)
       ''Code block JSON parse'' ''code_block_json'' image_hash"

text \<open>Method 3: the brace-delimited substrings.\<close>

definition pattern_stage_with :: "decoder \<Rightarrow> string \<Rightarrow> string \<Rightarrow> outcome" where
  "pattern_stage_with loads response_text image_hash =
     try_each_with loads (findall False json_pattern response_text)
       ''Pattern match JSON parse'' ''pattern_json'' image_hash"

text \<open>The three JSON methods in their order; the first that does not pass on decides.\<close>

definition json_stages_with :: "decoder \<Rightarrow> string \<Rightarrow> string \<Rightarrow> outcome" where
  "json_stages_with loads response_text image_hash =
     (case direct_stage_with loads response_text image_hash of
        Next \<Rightarrow>
          (case code_block_stage_with loads response_text image_hash of
             Next \<Rightarrow> pattern_stage_with loads response_text image_hash
           | out \<Rightarrow> out)
      | out \<Rightarrow> out)"

text \<open>The test for a general explanation in place of an analysis.\<close>

definition is_explanation :: "string \<Rightarrow> bool" where
  "is_explanation response_text =
     (contains (lower response_text) ''image processing''
      \<or> contains (lower response_text) ''computer vision''
      \<or> contains (lower response_text) ''cannot analyze'')"

text \<open>The body of the inner \<open>try\<close> of \<open>analyze_food\<close>.\<close>

definition parse_section_with :: "decoder \<Rightarrow> string \<Rightarrow> string \<Rightarrow> py_error + pydict" where
  "parse_section_with loads response_text image_hash =
     (case json_stages_with loads response_text image_hash of
        Return d \<Rightarrow> Inr d
      | Raise e \<Rightarrow> Inl e
      | Next \<Rightarrow>
          if is_explanation response_text then create_smart_fallback image_hash
          else extract_from_llm_response response_text image_hash)"

text \<open>
  The parsing section of \<open>analyze_food\<close> with its handler, which sends every exception
  of the body to the heuristic extraction.
\<close>

definition recover_with :: "decoder \<Rightarrow> string \<Rightarrow> string \<Rightarrow> py_error + pydict" where
  "recover_with loads response_text image_hash =
     (case parse_section_with loads response_text image_hash of
        Inr d \<Rightarrow> Inr d
      | Inl _ \<Rightarrow> extract_from_llm_response response_text image_hash)"

text \<open>The pipeline with \<open>json_loads\<close> as its decoder.\<close>

definition try_candidate :: "string \<Rightarrow> string \<Rightarrow> string \<Rightarrow> string \<Rightarrow> outcome" where
  "try_candidate text label tag image_hash = try_candidate_with json_loads text label tag image_hash"

definition try_each :: "string list \<Rightarrow> string \<Rightarrow> string \<Rightarrow> string \<Rightarrow> outcome" where
  "try_each cs label tag image_hash = try_each_with json_loads cs label tag image_hash"

definition direct_stage :: "string \<Rightarrow> string \<Rightarrow> outcome" where
  "direct_stage response_text image_hash = direct_stage_with json_loads response_text image_hash"



definition json_stages :: "string \<Rightarrow> string \<Rightarrow> outcome" where
  "json_stages response_text image_hash = json_stages_with json_loads response_text image_hash"

definition parse_section :: "string \<Rightarrow> string \<Rightarrow> py_error + pydict" where
  "parse_section response_text image_hash = parse_section_with json_loads response_text image_hash"

text \<open>\<open>recover\<close>: the recovery of the program.\<close>

definition recover :: "string \<Rightarrow> string \<Rightarrow> py_error + pydict" where
  "recover response_text image_hash = recover_with json_loads response_text image_hash"

section \<open>Notions of the specification\<close>

text \<open>A fingerprint: the first eight hexadecimal digits of an MD5 digest.\<close>

definition is_hex :: "char \<Rightarrow> bool" where
  "is_hex c = (c \<in> set ''0123456789abcdef'')"

definition hex_digest :: "string \<Rightarrow> bool" where
  "hex_digest h = (length h = 8 \<and> list_all is_hex h)"

text \<open>A string of hexadecimal digits read as a number in base 16.\<close>

definition hex_digit :: "char \<Rightarrow> int" where
  "hex_digit c = (if is_digit c then int (of_char c) - 48 else int (of_char c) - 87)"

definition hex_value :: "string \<Rightarrow> int" where
  "hex_value h = foldl (\<lambda>a c. 16 * a + hex_digit c) 0 h"

text \<open>
  The candidate texts of the three JSON methods in the order in which they are tried:
  the cleaned response if it starts and ends with a brace, the stripped fenced blocks,
  the stripped brace-delimited substrings.
\<close>

definition candidates :: "string \<Rightarrow> string list" where
  "candidates response_text =
     (let response_cleaned = replace (replace (strip response_text) ''```json'' []) ''```'' []
      in (if startswith response_cleaned ''{'' \<and> endswith response_cleaned ''}''
          then [response_cleaned] else [])
         @ map strip (findall True code_block_pattern response_text)
         @ map strip (findall False json_pattern response_text))"

text \<open>A field of the record that a call returns; nothing when the call raises.\<close>

definition field :: "string \<Rightarrow> py_error + pydict \<Rightarrow> pyval option" where
  "field k r = (case r of Inl _ \<Rightarrow> None | Inr d \<Rightarrow> map_of d k)"

text \<open>An entry of a field that holds a dictionary.\<close>

definition entry :: "string \<Rightarrow> pyval option \<Rightarrow> pyval option" where
  "entry k v = (case v of Some (PDict b) \<Rightarrow> map_of b k | _ \<Rightarrow> None)"

text \<open>
  The breakdown as the specification words it: 16 percent of the calories at 4 kcal per
  gram of protein, 54 percent at 4 for carbohydrates, 30 percent at 9 for fat, a
  120th and a 150th of the calories, at least 4 and 3, for fiber and sugar, each rounded
  down to an integer.
\<close>

definition spec_breakdown :: "int \<Rightarrow> pyval" where
  "spec_breakdown C =
     PDict [(''calories'', PInt C),
            (''protein'', PStr (grams \<lfloor>of_int C * (16 / 100) / 4 :: rat\<rfloor>)),
            (''carbohydrates'', PStr (grams \<lfloor>of_int C * (54 / 100) / 4 :: rat\<rfloor>)),
            (''fat'', PStr (grams \<lfloor>of_int C * (30 / 100) / 9 :: rat\<rfloor>)),
            (''fiber'', PStr (grams (max 4 \<lfloor>of_int C / 120 :: rat\<rfloor>))),
            (''sugar'', PStr (grams (max 3 \<lfloor>of_int C / 150 :: rat\<rfloor>)))]"

text \<open>
  A record is complete when the validator has nothing to add: each field it looks at is
  present and, where the validator tests the type, of that type.
\<close>

definition complete_record :: "pydict \<Rightarrow> bool" where
  "complete_record d =
     (present_as is_list d ''foods_detected'' \<and> present_as is_number d ''total_calories''
      \<and> has_key d ''confidence_score'' \<and> present_as is_dict d ''nutritional_breakdown''
      \<and> present_as is_list d ''individual_foods'' \<and> present_as is_list d ''health_tips'')"

section \<open>Properties\<close>

subsection \<open>Error propagation\<close>

lemma bnd_Inr [simp]: "bnd (Inr v) f = f v"
  by (simp add: bnd_def)

lemma bnd_Inl [simp]: "bnd (Inl e) f = Inl e"
  by (simp add: bnd_def)

lemma bnd_eq_Inr: "bnd m f = Inr r \<longleftrightarrow> (\<exists>v. m = Inr v \<and> f v = Inr r)"
  by (cases m) simp_all

subsection \<open>Rounding to a double\<close>

lemma pow2_powi: "pow2 e = 2 powi e"
  by (simp add: pow2_def power_int_def power_one_over inverse_eq_divide)

lemma pow2_pos [simp]: "0 < pow2 e"
  by (simp add: pow2_powi)

lemma pow2_add: "pow2 (a + b) = pow2 a * pow2 b"
  by (simp add: pow2_powi power_int_add)

lemma pow2_diff: "pow2 (a - b) = pow2 a / pow2 b"
  by (simp add: pow2_powi power_int_diff)

lemma pow2_nat: "pow2 (int n) = 2 ^ n"
  by (simp add: pow2_def)

lemma pow2_less_iff: "pow2 a < pow2 b \<longleftrightarrow> a < b"
proof
  assume "a < b" then show "pow2 a < pow2 b"
    by (simp add: pow2_powi power_int_strict_increasing)
next
  assume l: "pow2 a < pow2 b"
  show "a < b"
  proof (rule ccontr)
    assume "\<not> a < b"
    then have "b \<le> a" by simp
    then have "pow2 b \<le> pow2 a"
      by (simp add: pow2_powi power_int_increasing)
    with l show False by simp
  qed
qed

lemma pow2_le_iff: "pow2 a \<le> pow2 b \<longleftrightarrow> a \<le> b"
  using pow2_less_iff [of b a] by (auto simp: not_less [symmetric])

lemma ilog2_bounds:
  assumes "0 < a"
  shows "pow2 (ilog2 a) \<le> a \<and> a < pow2 (ilog2 a + 1)"
proof -
  obtain p q where pq: "quotient_of a = (p, q)" by (cases "quotient_of a")
  then have q: "0 < q" and a: "a = of_int p / of_int q"
    by (auto dest: quotient_of_denom_pos quotient_of_div)
  from assms a q have p: "0 < p"
    by (simp add: zero_less_divide_iff)
  let ?bp = "bitlen p" and ?bq = "bitlen q"
  from bitlen_bounds [OF p] have p1: "(2::int) ^ nat (?bp - 1) \<le> p" and p2: "p < 2 ^ nat ?bp"
    by auto
  from bitlen_bounds [OF q] have q1: "(2::int) ^ nat (?bq - 1) \<le> q" and q2: "q < 2 ^ nat ?bq"
    by auto
  have bp: "1 \<le> ?bp" using p by (simp add: bitlen_ge_iff_power)
  have bq: "1 \<le> ?bq" using q by (simp add: bitlen_ge_iff_power)
  have P1: "pow2 (?bp - 1) \<le> of_int p"
  proof -
    have "(of_int ((2::int) ^ nat (?bp - 1)) :: rat) \<le> of_int p"
      using p1 by (simp only: of_int_le_iff)
    then show ?thesis using bp by (simp add: pow2_def)
  qed
  have P2: "of_int p < pow2 ?bp"
  proof -
    have "(of_int p :: rat) < of_int ((2::int) ^ nat ?bp)"
      using p2 by (simp only: of_int_less_iff)
    then show ?thesis using bp by (simp add: pow2_def)
  qed
  have Q1: "pow2 (?bq - 1) \<le> of_int q"
  proof -
    have "(of_int ((2::int) ^ nat (?bq - 1)) :: rat) \<le> of_int q"
      using q1 by (simp only: of_int_le_iff)
    then show ?thesis using bq by (simp add: pow2_def)
  qed
  have Q2: "of_int q < pow2 ?bq"
  proof -
    have "(of_int q :: rat) < of_int ((2::int) ^ nat ?bq)"
      using q2 by (simp only: of_int_less_iff)
    then show ?thesis using bq by (simp add: pow2_def)
  qed
  let ?d = "?bp - ?bq"
  have qr: "(0::rat) < of_int q" using q by simp
  have lower: "pow2 (?d - 1) < a"
  proof -
    have "pow2 (?d - 1) * of_int q < pow2 (?d - 1) * pow2 ?bq"
      using Q2 by (simp add: mult_strict_left_mono)
    also have "\<dots> = pow2 (?bp - 1)"
      by (simp add: pow2_add [symmetric])
    also have "\<dots> \<le> of_int p" by (rule P1)
    finally show ?thesis using qr by (simp add: a pos_less_divide_eq)
  qed
  have upper: "a < pow2 (?d + 1)"
  proof -
    have "of_int p < pow2 ?bp" by (rule P2)
    also have "\<dots> = pow2 (?d + 1) * pow2 (?bq - 1)"
      by (simp add: pow2_add [symmetric])
    also have "\<dots> \<le> pow2 (?d + 1) * of_int q"
      using Q1 by (simp add: mult_left_mono)
    finally show ?thesis using qr by (simp add: a pos_divide_less_eq)
  qed
  show ?thesis
  proof (cases "pow2 ?d \<le> a")
    case True
    then have "ilog2 a = ?d" by (simp add: ilog2_def pq)
    with True upper show ?thesis by simp
  next
    case False
    then have "ilog2 a = ?d - 1" by (simp add: ilog2_def pq)
    with False lower show ?thesis by simp
  qed
qed

lemma ilog2_unique:
  assumes "0 < a" "pow2 e \<le> a" "a < pow2 (e + 1)"
  shows "ilog2 a = e"
proof -
  from ilog2_bounds [OF assms(1)] have b1: "pow2 (ilog2 a) \<le> a" and b2: "a < pow2 (ilog2 a + 1)"
    by auto
  from assms(2) b2 have "pow2 e < pow2 (ilog2 a + 1)" by (rule le_less_trans)
  then have 1: "e < ilog2 a + 1" by (simp only: pow2_less_iff)
  from b1 assms(3) have "pow2 (ilog2 a) < pow2 (e + 1)" by (rule le_less_trans)
  then have 2: "ilog2 a < e + 1" by (simp only: pow2_less_iff)
  from 1 2 show ?thesis by simp
qed

lemma rhe_of_int [simp]: "round_half_even (of_int n) = n"
  by (simp add: round_half_even_def)

lemma rhe_ge: "of_int N \<le> x \<Longrightarrow> N \<le> round_half_even x"
proof -
  assume "of_int N \<le> x"
  then have "N \<le> \<lfloor>x\<rfloor>" by (simp add: le_floor_iff)
  then show ?thesis by (simp add: round_half_even_def Let_def)
qed

lemma rhe_le: "x \<le> of_int N \<Longrightarrow> round_half_even x \<le> N"
proof -
  assume a: "x \<le> of_int N"
  have f: "\<lfloor>x\<rfloor> \<le> N" using a by (simp add: floor_le_iff)
  show ?thesis
  proof (cases "x = of_int \<lfloor>x\<rfloor>")
    case True
    then have "x - of_int \<lfloor>x\<rfloor> = 0" by simp
    then show ?thesis using f by (simp add: round_half_even_def Let_def)
  next
    case False
    then have "of_int \<lfloor>x\<rfloor> < x" using of_int_floor_le [of x] by linarith
    with a have "(of_int \<lfloor>x\<rfloor> :: rat) < of_int N" by simp
    then have "\<lfloor>x\<rfloor> < N" by (simp only: of_int_less_iff)
    then show ?thesis by (simp add: round_half_even_def Let_def)
  qed
qed

lemma rhe_near:
  assumes "\<bar>x - of_int N\<bar> < 1 / 2"
  shows "round_half_even x = N"
proof -
  from assms have 1: "of_int N - 1 / 2 < x" and 2: "x < of_int N + 1 / 2"
    by linarith+
  show ?thesis
  proof (cases "of_int N \<le> x")
    case True
    then have "\<lfloor>x\<rfloor> = N" using 2 by (simp add: floor_eq_iff)
    then show ?thesis using 2 by (simp add: round_half_even_def Let_def)
  next
    case False
    then have "\<lfloor>x\<rfloor> = N - 1" using 1 by (simp add: floor_eq_iff)
    then show ?thesis using 1 by (simp add: round_half_even_def Let_def)
  qed
qed

lemma rnd64_neg: "rnd64 (- q) = fneg (rnd64 q)"
  by (simp add: rnd64_def Let_def)

lemma rnd64_cert:
  assumes q: "0 < q" and e1: "pow2 e \<le> q" and e2: "q < pow2 (e + 1)"
    and lo: "- 1022 \<le> e" and hi: "e \<le> 1023"
    and m: "\<bar>q / pow2 (e - 52) - of_int M\<bar> < 1 / 2"
    and fin: "of_int M * pow2 (e - 52) < pow2 1024"
  shows "rnd64 q = Finite (of_int M * pow2 (e - 52))"
proof -
  have il: "ilog2 q = e" using q e1 e2 by (rule ilog2_unique)
  have mx: "max e (- 1022) = e" using lo by simp
  have r: "round_half_even (q / pow2 (e - 52)) = M" using m by (rule rhe_near)
  show ?thesis
    using q fin by (simp add: rnd64_def Let_def il mx r not_le)
qed

lemma rnd64_between_pos:
  assumes q: "0 \<le> q" and E: "q < pow2 E" and Elo: "- 1021 \<le> E" and J: "J \<le> 53 - E"
    and A: "of_int A * pow2 (- J) \<le> q" and B: "q \<le> of_int B * pow2 (- J)"
    and fin: "of_int B * pow2 (- J) < pow2 1024"
  shows "\<exists>r. rnd64 q = Finite r \<and> of_int A * pow2 (- J) \<le> r \<and> r \<le> of_int B * pow2 (- J)"
proof (cases "q = 0")
  case True
  then show ?thesis using A B by (simp add: rnd64_def)
next
  case False
  with q have qp: "0 < q" by simp
  define e where "e = max (ilog2 q) (- 1022)"
  define u where "u = pow2 (e - 52)"
  define k where "k = nat (52 - e - J)"
  from ilog2_bounds [OF qp] E have "pow2 (ilog2 q) < pow2 E" by simp
  then have "ilog2 q < E" by (simp only: pow2_less_iff)
  with Elo have eE: "e \<le> E - 1" by (simp add: e_def)
  with J have kk: "int k = 52 - e - J" by (simp add: k_def)
  have up: "0 < u" by (simp add: u_def)
  have g: "pow2 (- J) = of_int (2 ^ k) * u"
  proof -
    have "pow2 (- J) = pow2 (int k + (e - 52))" using kk by simp
    also have "\<dots> = pow2 (int k) * u" by (simp only: pow2_add u_def)
    finally show ?thesis by (simp add: pow2_nat)
  qed
  let ?m = "round_half_even (q / u)"
  have "of_int (A * 2 ^ k) * u \<le> q" using A by (simp add: g mult.assoc)
  then have "of_int (A * 2 ^ k) \<le> q / u" using up by (simp add: pos_le_divide_eq)
  then have "A * 2 ^ k \<le> ?m" by (rule rhe_ge)
  then have "(of_int (A * 2 ^ k) :: rat) \<le> of_int ?m" by (simp only: of_int_le_iff)
  then have "of_int (A * 2 ^ k) * u \<le> of_int ?m * u" using up by (simp add: mult_right_mono)
  then have lowr: "of_int A * pow2 (- J) \<le> of_int ?m * u" by (simp add: g mult.assoc)
  have "q \<le> of_int (B * 2 ^ k) * u" using B by (simp add: g mult.assoc)
  then have "q / u \<le> of_int (B * 2 ^ k)" using up by (simp add: pos_divide_le_eq)
  then have "?m \<le> B * 2 ^ k" by (rule rhe_le)
  then have "(of_int ?m :: rat) \<le> of_int (B * 2 ^ k)" by (simp only: of_int_le_iff)
  then have "of_int ?m * u \<le> of_int (B * 2 ^ k) * u" using up by (simp add: mult_right_mono)
  then have uppr: "of_int ?m * u \<le> of_int B * pow2 (- J)" by (simp add: g mult.assoc)
  from uppr fin have "\<not> pow2 1024 \<le> of_int ?m * u" by simp
  then have "rnd64 q = Finite (of_int ?m * u)"
    using qp by (simp add: rnd64_def Let_def e_def [symmetric] u_def [symmetric])
  with lowr uppr show ?thesis by simp
qed

lemma rnd64_between:
  assumes E: "\<bar>q\<bar> < pow2 E" and Elo: "- 1021 \<le> E" and J: "J \<le> 53 - E"
    and A: "of_int A * pow2 (- J) \<le> q" and B: "q \<le> of_int B * pow2 (- J)"
    and finA: "- pow2 1024 < of_int A * pow2 (- J)" and finB: "of_int B * pow2 (- J) < pow2 1024"
  shows "\<exists>r. rnd64 q = Finite r \<and> of_int A * pow2 (- J) \<le> r \<and> r \<le> of_int B * pow2 (- J)"
proof (cases "0 \<le> q")
  case True
  with E have "q < pow2 E" by simp
  from rnd64_between_pos [OF True this Elo J A B finB] show ?thesis .
next
  case False
  then have n: "0 \<le> - q" by simp
  from False E have e: "- q < pow2 E" by simp
  have a: "of_int (- B) * pow2 (- J) \<le> - q" using B by simp
  have b: "- q \<le> of_int (- A) * pow2 (- J)" using A by simp
  have f: "of_int (- A) * pow2 (- J) < pow2 1024" using finA by simp
  from rnd64_between_pos [OF n e Elo J a b f] obtain r where
    r: "rnd64 (- q) = Finite r" "of_int (- B) * pow2 (- J) \<le> r" "r \<le> of_int (- A) * pow2 (- J)"
    by blast
  have "rnd64 q = fneg (rnd64 (- q))" using rnd64_neg [of "- q"] by simp
  then have "rnd64 q = Finite (- r)" using r(1) by simp
  moreover have "of_int A * pow2 (- J) \<le> - r" using r(3) by simp
  moreover have "- r \<le> of_int B * pow2 (- J)" using r(2) by simp
  ultimately show ?thesis by simp
qed

lemma pow2_numeral_simps:
  "pow2 (numeral n) = 2 ^ numeral n" "pow2 (- numeral n) = 1 / 2 ^ numeral n" "pow2 0 = 1"
  "pow2 1 = 2" "pow2 (- 1) = 1 / 2"
  by (simp_all add: pow2_def)

lemma rnd64_bounded:
  assumes "\<bar>q\<bar> \<le> 2 ^ 40"
  shows "\<exists>r. rnd64 q = Finite r \<and> \<bar>r\<bar> \<le> 2 ^ 40"
proof -
  have 1: "\<bar>q\<bar> < pow2 41" using assms by (simp add: pow2_numeral_simps)
  have 2: "of_int (- (2 ^ 40)) * pow2 (- 0) \<le> q" using assms by (simp add: pow2_numeral_simps)
  have 3: "q \<le> of_int (2 ^ 40) * pow2 (- 0)" using assms by (simp add: pow2_numeral_simps)
  from rnd64_between [OF 1 _ _ 2 3] obtain r where
    "rnd64 q = Finite r" "of_int (- (2 ^ 40)) * pow2 (- 0) \<le> r" "r \<le> of_int (2 ^ 40) * pow2 (- 0)"
    by (auto simp: pow2_numeral_simps)
  then show ?thesis by (auto simp: pow2_numeral_simps)
qed

lemma rnd64_unit:
  assumes "0 \<le> q" "q \<le> 1"
  shows "\<exists>r. rnd64 q = Finite r \<and> 0 \<le> r \<and> r \<le> 1"
proof -
  have 1: "\<bar>q\<bar> < pow2 1" using assms by (simp add: pow2_def)
  have 2: "of_int 0 * pow2 (- 0) \<le> q" using assms by simp
  have 3: "q \<le> of_int 1 * pow2 (- 0)" using assms by (simp add: pow2_numeral_simps)
  from rnd64_between [OF 1 _ _ 2 3] obtain r where
    "rnd64 q = Finite r" "of_int 0 * pow2 (- 0) \<le> r" "r \<le> of_int 1 * pow2 (- 0)"
    by (auto simp: pow2_numeral_simps)
  then show ?thesis by (auto simp: pow2_numeral_simps)
qed

lemma rnd64_of_int:
  assumes "\<bar>n\<bar> < 2 ^ 53"
  shows "rnd64 (of_int n) = Finite (of_int n)"
proof -
  have "\<bar>(of_int n :: rat)\<bar> < of_int (2 ^ 53)"
    using assms by (simp only: of_int_abs [symmetric] of_int_less_iff)
  then have 1: "\<bar>(of_int n :: rat)\<bar> < pow2 53" by (simp add: pow2_numeral_simps)
  then have f: "(of_int n :: rat) < pow2 1024" "- pow2 1024 < (of_int n :: rat)"
    by (simp_all add: pow2_numeral_simps)
  have 2: "of_int n * pow2 (- 0) \<le> (of_int n :: rat)" by (simp add: pow2_numeral_simps)
  have 3: "(of_int n :: rat) \<le> of_int n * pow2 (- 0)" by (simp add: pow2_numeral_simps)
  from rnd64_between [OF 1 _ _ 2 3] f obtain r where
    "rnd64 (of_int n) = Finite r" "of_int n * pow2 (- 0) \<le> r" "r \<le> of_int n * pow2 (- 0)"
    by (auto simp: pow2_numeral_simps)
  then show ?thesis by (auto simp: pow2_numeral_simps)
qed

lemma lit_16: "lit (16 / 100) = Finite (5764607523034235 / 2 ^ 55)"
proof -
  have "rnd64 (16 / 100) = Finite (of_int 5764607523034235 * pow2 (- 3 - 52))"
    by (rule rnd64_cert) (simp_all add: pow2_numeral_simps)
  then show ?thesis by (simp add: lit_def pow2_numeral_simps)
qed

lemma lit_54: "lit (54 / 100) = Finite (607985949695017 / 2 ^ 50)"
proof -
  have "rnd64 (54 / 100) = Finite (of_int 4863887597560136 * pow2 (- 1 - 52))"
    by (rule rnd64_cert) (simp_all add: pow2_numeral_simps)
  then show ?thesis by (simp add: lit_def pow2_numeral_simps)
qed

lemma lit_30: "lit (30 / 100) = Finite (5404319552844595 / 2 ^ 54)"
proof -
  have "rnd64 (30 / 100) = Finite (of_int 5404319552844595 * pow2 (- 2 - 52))"
    by (rule rnd64_cert) (simp_all add: pow2_numeral_simps)
  then show ?thesis by (simp add: lit_def pow2_numeral_simps)
qed

subsection \<open>The macro formulas on integers\<close>

lemma int_to_float_exact: "\<bar>n\<bar> < 2 ^ 53 \<Longrightarrow> int_to_float n = Inr (Finite (of_int n))"
  by (simp add: int_to_float_def rnd64_of_int)

lemma pow2_neg_nat: "pow2 (- int j) = 1 / 2 ^ j"
  by (simp add: pow2_def)

lemma rnd64_window:
  assumes a: "0 \<le> a" and b: "b \<le> 2 ^ 41" and j: "j \<le> 12"
    and lo: "of_int a \<le> q" and hi: "q \<le> of_int b - 1 / 2 ^ j"
  shows "\<exists>r. rnd64 q = Finite r \<and> of_int a \<le> r \<and> r \<le> of_int b - 1 / 2 ^ j"
proof -
  have br: "(of_int b :: rat) \<le> 2 ^ 41"
  proof -
    have "(of_int b :: rat) \<le> of_int (2 ^ 41)" using b by (simp only: of_int_le_iff)
    then show ?thesis by simp
  qed
  have a0: "(0::rat) \<le> of_int a" using a by simp
  have pj: "(0::rat) < 1 / 2 ^ j" by simp
  have q0: "0 \<le> q" using a0 lo by linarith
  have q1: "q < 2 ^ 41" using br hi pj by linarith
  have 1: "\<bar>q\<bar> < pow2 41" using q0 q1 by (simp add: pow2_numeral_simps)
  have 2: "- 1021 \<le> (41::int)" by simp
  have 3: "int j \<le> 53 - 41" using j by simp
  have Av: "of_int (a * 2 ^ j) * pow2 (- int j) = (of_int a :: rat)"
    by (simp add: pow2_neg_nat)
  have Bv: "of_int (b * 2 ^ j - 1) * pow2 (- int j) = (of_int b :: rat) - 1 / 2 ^ j"
    by (simp add: pow2_neg_nat field_simps)
  have big: "(2::rat) ^ 41 < pow2 1024" "- pow2 1024 < (0::rat)"
    by (simp_all add: pow2_numeral_simps)
  have A: "of_int (a * 2 ^ j) * pow2 (- int j) \<le> q"
    using lo by (simp only: Av)
  have B: "q \<le> of_int (b * 2 ^ j - 1) * pow2 (- int j)"
    using hi by (simp only: Bv)
  have fa: "- pow2 1024 < of_int (a * 2 ^ j) * pow2 (- int j)"
    unfolding Av using a0 big by linarith
  have fb: "of_int (b * 2 ^ j - 1) * pow2 (- int j) < pow2 1024"
    unfolding Bv using br pj big by linarith
  from rnd64_between [OF 1 2 3 A B fa fb] obtain r where
    r: "rnd64 q = Finite r" "of_int (a * 2 ^ j) * pow2 (- int j) \<le> r"
       "r \<le> of_int (b * 2 ^ j - 1) * pow2 (- int j)"
    by blast
  from r(2) have r1: "of_int a \<le> r" by (simp only: Av)
  from r(3) have r2: "r \<le> of_int b - 1 / 2 ^ j" by (simp only: Bv)
  from r(1) r1 r2 show ?thesis by blast
qed

lemma py_int_window:
  assumes "of_int k \<le> r" "r \<le> of_int (k + 1) - 1 / 2 ^ j" "0 \<le> k"
  shows "py_int (Finite r) = Inr k"
proof -
  have pj: "(0::rat) < 1 / 2 ^ j" by simp
  have "(of_int (k + 1) :: rat) = of_int k + 1" by simp
  with assms(2) pj have "r < of_int k + 1" by linarith
  with assms(1) have "\<lfloor>r\<rfloor> = k" by (simp add: floor_unique)
  moreover have "0 \<le> r" using assms(1,3) by (simp add: order_trans [of 0 "of_int k"])
  ultimately show ?thesis by simp
qed

lemma of_int_div_mod:
  "(of_int C :: rat) = of_int d * of_int (C div d) + of_int (C mod d)"
proof -
  have "C = d * (C div d) + C mod d" by simp
  then have "(of_int C :: rat) = of_int (d * (C div d) + C mod d)" by simp
  then show ?thesis by (simp only: of_int_add of_int_mult)
qed

lemma rat_bounds:
  "0 \<le> (k::int) \<Longrightarrow> (0::rat) \<le> of_int k"
  "(k::int) < 2 ^ 40 \<Longrightarrow> (of_int k :: rat) < 2 ^ 40"
  "(k::int) \<le> m \<Longrightarrow> (of_int k :: rat) \<le> of_int m"
  "(k::int) < m \<Longrightarrow> (of_int k :: rat) < of_int m"
proof -
  show "0 \<le> k \<Longrightarrow> (0::rat) \<le> of_int k" by simp
  show "k < 2 ^ 40 \<Longrightarrow> (of_int k :: rat) < 2 ^ 40"
  proof -
    assume "k < 2 ^ 40"
    then have "(of_int k :: rat) < of_int (2 ^ 40)" by (simp only: of_int_less_iff)
    then show ?thesis by simp
  qed
  show "k \<le> m \<Longrightarrow> (of_int k :: rat) \<le> of_int m" by simp
  show "k < m \<Longrightarrow> (of_int k :: rat) < of_int m" by simp
qed

text \<open>\<open>int(C / d)\<close> for a non-negative int below \<open>2^40\<close> is the integer quotient.\<close>

lemma per_floor:
  assumes C: "0 \<le> C" "C < 2 ^ 40" and d: "1 \<le> d" "d \<le> 256"
  shows "per (NInt C) d = Inr (C div d)"
proof -
  let ?k = "C div d" and ?r = "C mod d"
  let ?D = "of_int d :: rat"
  have D0: "0 < ?D" using d by simp
  have D1: "?D \<le> 256" using rat_bounds(3) [of d 256] d by simp
  have k0: "0 \<le> ?k" using C d by (simp add: pos_imp_zdiv_nonneg_iff)
  have kC: "?k \<le> C" using zdiv_mono2 [of C 1 d] C d by simp
  have r0: "0 \<le> ?r" and r1: "?r \<le> d - 1" using d by simp_all
  have R0: "(0::rat) \<le> of_int ?r" using r0 by simp
  have R1: "(of_int ?r :: rat) \<le> ?D - 1" using rat_bounds(3) [OF r1] by simp
  have eq: "(of_int C :: rat) = ?D * of_int ?k + of_int ?r" by (rule of_int_div_mod)
  have lo: "of_int ?k \<le> of_int C / ?D"
    using D0 R0 by (simp add: pos_le_divide_eq eq mult.commute)
  have "of_int C \<le> (of_int (?k + 1) - 1 / 2 ^ 8) * ?D"
  proof -
    have "(of_int (?k + 1) - 1 / 2 ^ 8) * ?D = ?D * of_int ?k + ?D - ?D / 256"
      by (simp add: algebra_simps)
    moreover have "?D / 256 \<le> 1" using D1 by simp
    ultimately show ?thesis using R1 eq by linarith
  qed
  then have hi: "of_int C / ?D \<le> of_int (?k + 1) - 1 / 2 ^ 8"
    using D0 by (simp only: pos_divide_le_eq)
  have b: "?k + 1 \<le> 2 ^ 41" using kC C(2) by simp
  from rnd64_window [OF k0 b _ lo hi] obtain r where
    r: "rnd64 (of_int C / ?D) = Finite r" "of_int ?k \<le> r" "r \<le> of_int (?k + 1) - 1 / 2 ^ 8"
    by auto
  have "py_int (Finite r) = Inr ?k" using r(2,3) k0 by (rule py_int_window)
  then show ?thesis using r(1) d by (simp add: per_def)
qed

text \<open>The division and truncation that end \<open>int(x * c / d)\<close>.\<close>

lemma div_int_window:
  assumes k: "0 \<le> k" "k < 2 ^ 40" and d: "1 \<le> d" "d \<le> 16" and j: "j \<le> 8"
    and lo: "of_int (d * k) \<le> x" and hi: "x \<le> of_int (d * k + d) - 1 / 2 ^ j"
  shows "bnd (num_div_i (NFloat (Finite x)) d) py_int = Inr k"
proof -
  let ?D = "of_int d :: rat"
  have D0: "0 < ?D" using d by simp
  have D1: "?D \<le> 16" using rat_bounds(3) [of d 16] d by simp
  have dd: "\<bar>d\<bar> < 2 ^ 53" using d by simp
  have lo': "of_int k \<le> x / ?D"
    using D0 lo by (simp add: pos_le_divide_eq mult.commute)
  have "x \<le> (of_int (k + 1) - 1 / 2 ^ (j + 4)) * ?D"
  proof -
    have "(of_int (k + 1) - 1 / 2 ^ (j + 4)) * ?D = ?D * of_int k + ?D - (?D / 16) / 2 ^ j"
      by (simp add: algebra_simps power_add)
    moreover have "(?D / 16) / 2 ^ j \<le> 1 / 2 ^ j"
    proof (rule divide_right_mono)
      show "?D / 16 \<le> 1" using D1 by simp
      show "(0::rat) \<le> 2 ^ j" by simp
    qed
    ultimately show ?thesis using hi by simp
  qed
  then have hi': "x / ?D \<le> of_int (k + 1) - 1 / 2 ^ (j + 4)"
    using D0 by (simp only: pos_divide_le_eq)
  have b: "k + 1 \<le> 2 ^ 41" using k(2) by simp
  have jj: "j + 4 \<le> 12" using j by simp
  from rnd64_window [OF k(1) b jj lo' hi'] obtain r where
    r: "rnd64 (x / ?D) = Finite r" "of_int k \<le> r" "r \<le> of_int (k + 1) - 1 / 2 ^ (j + 4)"
    by auto
  have "py_int (Finite r) = Inr k" using r(2,3) k(1) by (rule py_int_window)
  then show ?thesis using r(1) d by (simp add: int_to_float_exact [OF dd])
qed

text \<open>A product that lies between \<open>d * k\<close> and the last grid point below \<open>d * k + d\<close>.\<close>

lemma mul_window:
  assumes C: "0 \<le> C" "C < 2 ^ 40" and k: "0 \<le> k" "k < 2 ^ 38" and d: "1 \<le> d" "d \<le> 4 \<or> d * k + d \<le> 2 ^ 41"
    and j: "j \<le> 8"
    and lo: "of_int (d * k) \<le> of_int C * c" and hi: "of_int C * c \<le> of_int (d * k + d) - 1 / 2 ^ j"
  shows "\<exists>x. num_mul_f (NInt C) (Finite c) = Inr (Finite x)
           \<and> of_int (d * k) \<le> x \<and> x \<le> of_int (d * k + d) - 1 / 2 ^ j"
proof -
  have cc: "\<bar>C\<bar> < 2 ^ 53" using C by simp
  have a: "0 \<le> d * k" using k d by simp
  have b: "d * k + d \<le> 2 ^ 41"
  proof (cases "d \<le> 4")
    case True
    then have "d * k \<le> 4 * k" using k by (simp add: mult_right_mono)
    then show ?thesis using k True by simp
  next
    case False
    then show ?thesis using d(2) by simp
  qed
  have jj: "j \<le> 12" using j by simp
  from rnd64_window [OF a b jj lo hi] show ?thesis
    by (simp add: num_mul_f_def int_to_float_exact [OF cc])
qed

lemma macro_window:
  assumes C: "0 \<le> C" "C < 2 ^ 40" and k: "0 \<le> k" "k < 2 ^ 38"
    and d: "1 \<le> d" "d \<le> 4 \<or> d * k + d \<le> 2 ^ 41" "d \<le> 16"
    and j: "j \<le> 8"
    and lo: "of_int (d * k) \<le> of_int C * c" and hi: "of_int C * c \<le> of_int (d * k + d) - 1 / 2 ^ j"
  shows "macro (NInt C) (Finite c) d = Inr k"
proof -
  from mul_window [OF C k d(1,2) j lo hi] obtain x where
    x: "num_mul_f (NInt C) (Finite c) = Inr (Finite x)" "of_int (d * k) \<le> x"
       "x \<le> of_int (d * k + d) - 1 / 2 ^ j"
    by blast
  have k40: "k < 2 ^ 40" using k(2) by simp
  from div_int_window [OF k(1) k40 d(1,3) j x(2,3)] show ?thesis
    by (simp add: macro_def x(1))
qed

lemma macro_protein:
  assumes C: "0 \<le> C" "C < 2 ^ 40"
  shows "macro (NInt C) (lit (16 / 100)) 4 = Inr (C div 25)"
proof -
  let ?k = "C div 25" and ?r = "C mod 25"
  have k0: "0 \<le> ?k" using C by simp
  have k1: "?k < 2 ^ 38" using C by simp
  have eq: "(of_int C :: rat) = 25 * of_int ?k + of_int ?r"
    using of_int_div_mod [of C 25] by simp
  have R0: "(0::rat) \<le> of_int ?r" by simp
  have "?r \<le> 24" by simp
  then have R1: "(of_int ?r :: rat) \<le> 24" using rat_bounds(3) [of ?r 24] by simp
  have K0: "(0::rat) \<le> of_int ?k" using k0 by simp
  have C1: "(of_int C :: rat) < 2 ^ 40" using C(2) by (rule rat_bounds(2))
  have lo: "of_int (4 * ?k) \<le> of_int C * (5764607523034235 / 2 ^ 55 :: rat)"
    using R0 K0 by (simp add: eq)
  have hi: "of_int C * (5764607523034235 / 2 ^ 55 :: rat) \<le> of_int (4 * ?k + 4) - 1 / 2 ^ 3"
    using R1 C1 eq by simp
  from macro_window [OF C k0 k1 _ _ _ _ lo hi] show ?thesis
    unfolding lit_16 by simp
qed

lemma macro_carbohydrates:
  assumes C: "0 \<le> C" "C < 2 ^ 40"
  shows "macro (NInt C) (lit (54 / 100)) 4 = Inr (27 * C div 200)"
proof -
  let ?k = "27 * C div 200" and ?r = "27 * C mod 200"
  have k0: "0 \<le> ?k" using C by simp
  have k1: "?k < 2 ^ 38" using C by simp
  have eq: "27 * (of_int C :: rat) = 200 * of_int ?k + of_int ?r"
    using of_int_div_mod [of "27 * C" 200] by simp
  have R0: "(0::rat) \<le> of_int ?r" by simp
  have "?r \<le> 199" by simp
  then have R1: "(of_int ?r :: rat) \<le> 199" using rat_bounds(3) [of ?r 199] by simp
  have K0: "(0::rat) \<le> of_int ?k" using k0 by simp
  have C1: "(of_int C :: rat) < 2 ^ 40" using C(2) by (rule rat_bounds(2))
  have C0: "(0 :: rat) \<le> of_int C" using C(1) by simp
  have lo: "of_int (4 * ?k) \<le> of_int C * (607985949695017 / 2 ^ 50 :: rat)"
    using R0 C0 eq by simp
  have hi: "of_int C * (607985949695017 / 2 ^ 50 :: rat) \<le> of_int (4 * ?k + 4) - 1 / 2 ^ 6"
    using R1 C1 eq by simp
  from macro_window [OF C k0 k1 _ _ _ _ lo hi] show ?thesis
    unfolding lit_54 by simp
qed

text \<open>A value just below an integer rounds up to it.\<close>

lemma rnd64_snap:
  assumes q1: "1 \<le> q" and qB: "q \<le> of_int B" and B: "B < 2 ^ 53"
    and near: "(of_int B - q) * 2 ^ 54 \<le> q"
  shows "rnd64 q = Finite (of_int B)"
proof -
  have qp: "0 < q" using q1 by simp
  define e where "e = ilog2 q"
  from ilog2_bounds [OF qp] have e1: "pow2 e \<le> q" and e2: "q < pow2 (e + 1)"
    by (simp_all add: e_def)
  have "pow2 0 < pow2 (e + 1)" using q1 e2 by (simp add: pow2_numeral_simps)
  then have elo: "0 \<le> e" by (simp only: pow2_less_iff)
  have "(of_int B :: rat) < of_int (2 ^ 53)" using B by (simp only: of_int_less_iff)
  then have Br: "(of_int B :: rat) < pow2 53" by (simp add: pow2_numeral_simps)
  with e1 qB have "pow2 e < pow2 53" by linarith
  then have ehi: "e \<le> 52" by (simp only: pow2_less_iff)
  define n where "n = nat (52 - e)"
  have ne: "int n = 52 - e" using ehi by (simp add: n_def)
  have u: "pow2 (e - 52) = 1 / 2 ^ n"
  proof -
    have "e - 52 = - int n" using ne by simp
    then show ?thesis by (simp only: pow2_neg_nat)
  qed
  have half: "pow2 (e + 1) = 2 ^ 54 * (pow2 (e - 52) / 2)"
  proof -
    have "pow2 (e + 1) = pow2 (53 + (e - 52))" by (rule arg_cong [where f = pow2]) simp
    also have "\<dots> = pow2 53 * pow2 (e - 52)" by (simp only: pow2_add)
    finally show ?thesis by (simp add: pow2_numeral_simps)
  qed
  have d: "of_int B - q < pow2 (e - 52) / 2"
  proof -
    have "(of_int B - q) * 2 ^ 54 < 2 ^ 54 * (pow2 (e - 52) / 2)"
      using near e2 half by linarith
    then show ?thesis by simp
  qed
  have m: "\<bar>q / pow2 (e - 52) - of_int (B * 2 ^ n)\<bar> < 1 / 2"
  proof -
    have "q / pow2 (e - 52) - of_int (B * 2 ^ n) = (q - of_int B) * 2 ^ n"
      by (simp add: u algebra_simps)
    moreover have "(of_int B - q) * 2 ^ n < 1 / 2"
      using d by (simp add: u field_simps)
    moreover have "0 \<le> (of_int B - q) * 2 ^ n" using qB by simp
    ultimately show ?thesis by (simp add: abs_less_iff algebra_simps) 
  qed
  have v: "of_int (B * 2 ^ n) * pow2 (e - 52) = (of_int B :: rat)" by (simp add: u)
  have fin: "of_int (B * 2 ^ n) * pow2 (e - 52) < pow2 1024"
    unfolding v using Br by (simp add: pow2_numeral_simps)
  have "rnd64 q = Finite (of_int (B * 2 ^ n) * pow2 (e - 52))"
    using qp e1 e2 _ _ m fin by (rule rnd64_cert) (use elo ehi in simp_all)
  then show ?thesis by (simp only: v)
qed

lemma macro_fat:
  assumes C: "0 \<le> C" "C < 2 ^ 40"
  shows "macro (NInt C) (lit (30 / 100)) 9 = Inr (C div 30)"
proof -
  let ?k = "C div 30" and ?r = "C mod 30"
  let ?c = "5404319552844595 / 2 ^ 54 :: rat"
  have k0: "0 \<le> ?k" using C by simp
  have k1: "?k < 2 ^ 36" using C by simp
  have k40: "?k < 2 ^ 40" using k1 by simp
  have eq: "(of_int C :: rat) = 30 * of_int ?k + of_int ?r"
    using of_int_div_mod [of C 30] by simp
  have R0: "(0::rat) \<le> of_int ?r" by simp
  have "?r \<le> 29" by simp
  then have R1: "(of_int ?r :: rat) \<le> 29" using rat_bounds(3) [of ?r 29] by simp
  have K0: "(0::rat) \<le> of_int ?k" using k0 by simp
  have K1: "(of_int ?k :: rat) < 2 ^ 36"
  proof -
    have "(of_int ?k :: rat) < of_int (2 ^ 36)" using k1 by (simp only: of_int_less_iff)
    then show ?thesis by simp
  qed
  have cc: "\<bar>C\<bar> < 2 ^ 53" using C by simp
  have hi: "of_int C * ?c \<le> of_int (9 * ?k + 9) - 1 / 2 ^ 2"
    using R1 K0 eq by simp
  have "\<exists>x. num_mul_f (NInt C) (Finite ?c) = Inr (Finite x)
           \<and> of_int (9 * ?k) \<le> x \<and> x \<le> of_int (9 * ?k + 9) - 1 / 2 ^ 2"
  proof (cases "?r = 0 \<and> 1 \<le> ?k")
    case False
    then have "1 \<le> ?r \<or> ?k = 0" using k0 by (simp add: not_le) presburger
    then have "(1::rat) \<le> of_int ?r \<or> (of_int ?k :: rat) = 0"
      using rat_bounds(3) [of 1 ?r] by auto
    then have lo: "of_int (9 * ?k) \<le> of_int C * ?c"
      using R0 K0 K1 eq by auto
    have b: "(9::int) \<le> 4 \<or> 9 * ?k + 9 \<le> 2 ^ 41" using k1 by simp
    have k38: "?k < 2 ^ 38" using k1 by simp
    from mul_window [OF C k0 k38 _ b _ lo hi] show ?thesis by simp
  next
    case True
    then have r: "(of_int ?r :: rat) = 0" and kk: "(1::rat) \<le> of_int ?k"
      using rat_bounds(3) [of 1 ?k] by simp_all
    have q1: "1 \<le> of_int C * ?c" using kk by (simp add: eq r)
    have qB: "of_int C * ?c \<le> of_int (9 * ?k)" using K0 by (simp add: eq r)
    have B: "9 * ?k < 2 ^ 53" using k1 by simp
    have near: "(of_int (9 * ?k) - of_int C * ?c) * 2 ^ 54 \<le> of_int C * ?c"
      using K0 by (simp add: eq r)
    from rnd64_snap [OF q1 qB B near] have "rnd64 (of_int C * ?c) = Finite (of_int (9 * ?k))" .
    then have "num_mul_f (NInt C) (Finite ?c) = Inr (Finite (of_int (9 * ?k)))"
      by (simp add: num_mul_f_def int_to_float_exact [OF cc])
    then show ?thesis by simp
  qed
  then obtain x where
    x: "num_mul_f (NInt C) (Finite ?c) = Inr (Finite x)" "of_int (9 * ?k) \<le> x"
       "x \<le> of_int (9 * ?k + 9) - 1 / 2 ^ 2"
    by blast
  from div_int_window [OF k0 k40 _ _ _ x(2,3)] have "bnd (num_div_i (NFloat (Finite x)) 9) py_int = Inr ?k"
    by simp
  then show ?thesis unfolding lit_30 using x(1) by (simp add: macro_def)
qed

lemma derived_breakdown_int:
  assumes C: "0 \<le> C" "C < 2 ^ 40"
  shows "derived_breakdown (PInt C) =
    Inr (PDict
      [(''calories'', PInt C),
       (''protein'', PStr (grams (C div 25))),
       (''carbohydrates'', PStr (grams (27 * C div 200))),
       (''fat'', PStr (grams (C div 30))),
       (''fiber'', PStr (grams (max 4 (C div 120)))),
       (''sugar'', PStr (grams (max 3 (C div 150))))])"
  unfolding derived_breakdown_def
  by (simp only: as_num.simps bnd_Inr macro_protein [OF C] macro_carbohydrates [OF C]
      macro_fat [OF C] per_floor [OF C, of 120, simplified] per_floor [OF C, of 150, simplified])

text \<open>The arithmetic of the records does not raise on integers of moderate size.\<close>

lemma lit_unit:
  assumes "0 \<le> a" "a \<le> 1"
  shows "\<exists>c. lit a = Finite c \<and> 0 \<le> c \<and> c \<le> 1"
  unfolding lit_def using assms by (rule rnd64_unit)

lemma abs_of_int_le:
  assumes "\<bar>C\<bar> \<le> 2 ^ 40"
  shows "\<bar>(of_int C :: rat)\<bar> \<le> 2 ^ 40"
proof -
  have "(of_int \<bar>C\<bar> :: rat) \<le> of_int (2 ^ 40)" using assms by (simp only: of_int_le_iff)
  then show ?thesis by simp
qed

lemma scale_small:
  assumes x: "\<bar>x\<bar> \<le> 2 ^ 40" and c: "0 \<le> c" "c \<le> (1::rat)"
  shows "\<bar>x * c\<bar> \<le> 2 ^ 40"
proof -
  have "\<bar>x * c\<bar> = \<bar>x\<bar> * c" using c by (simp add: abs_mult)
  also have "\<dots> \<le> \<bar>x\<bar> * 1" using c by (intro mult_left_mono) simp_all
  finally show ?thesis using x by simp
qed

lemma fl_mul_small:
  assumes "\<bar>x\<bar> \<le> 2 ^ 40" "0 \<le> c" "c \<le> 1"
  shows "\<exists>y. fl_mul (Finite x) (Finite c) = Finite y \<and> \<bar>y\<bar> \<le> 2 ^ 40"
  using rnd64_bounded [OF scale_small [OF assms]] by simp

lemma num_mul_f_small:
  assumes C: "\<bar>C\<bar> \<le> 2 ^ 40" and c: "0 \<le> c" "c \<le> 1"
  shows "\<exists>y. num_mul_f (NInt C) (Finite c) = Inr (Finite y) \<and> \<bar>y\<bar> \<le> 2 ^ 40"
proof -
  have cc: "\<bar>C\<bar> < 2 ^ 53" using C by simp
  from fl_mul_small [OF abs_of_int_le [OF C] c] show ?thesis
    by (simp add: num_mul_f_def int_to_float_exact [OF cc])
qed

lemma div_int_small:
  assumes x: "\<bar>x\<bar> \<le> 2 ^ 40" and d: "1 \<le> d" "d \<le> 256"
  shows "\<exists>n. bnd (num_div_i (NFloat (Finite x)) d) py_int = Inr n"
proof -
  have dd: "\<bar>d\<bar> < 2 ^ 53" using d by simp
  have D: "(1::rat) \<le> of_int d" using d by simp
  have "\<bar>x / of_int d\<bar> = \<bar>x\<bar> / of_int d" using D by simp
  also have "\<dots> \<le> \<bar>x\<bar> / 1" using D by (intro divide_left_mono) simp_all
  finally have "\<bar>x / of_int d\<bar> \<le> 2 ^ 40" using x by simp
  from rnd64_bounded [OF this] obtain r where "rnd64 (x / of_int d) = Finite r" by blast
  then show ?thesis using d by (simp add: int_to_float_exact [OF dd])
qed

lemma macro_total:
  assumes C: "\<bar>C\<bar> \<le> 2 ^ 40" and a: "0 \<le> a" "a \<le> 1" and d: "1 \<le> d" "d \<le> 256"
  shows "\<exists>n. macro (NInt C) (lit a) d = Inr n"
proof -
  from lit_unit [OF a] obtain c where c: "lit a = Finite c" "0 \<le> c" "c \<le> 1" by blast
  from num_mul_f_small [OF C c(2,3)] obtain y where
    y: "num_mul_f (NInt C) (Finite c) = Inr (Finite y)" "\<bar>y\<bar> \<le> 2 ^ 40" by blast
  from div_int_small [OF y(2) d] show ?thesis by (simp add: macro_def c(1) y(1))
qed

lemma macro_float_total:
  assumes y: "\<bar>y\<bar> \<le> 2 ^ 40" and a: "0 \<le> a" "a \<le> 1" and d: "1 \<le> d" "d \<le> 256"
  shows "\<exists>n. macro (NFloat (Finite y)) (lit a) d = Inr n"
proof -
  from lit_unit [OF a] obtain c where c: "lit a = Finite c" "0 \<le> c" "c \<le> 1" by blast
  from fl_mul_small [OF y c(2,3)] obtain z where
    z: "fl_mul (Finite y) (Finite c) = Finite z" "\<bar>z\<bar> \<le> 2 ^ 40" by blast
  from div_int_small [OF z(2) d] show ?thesis by (simp add: macro_def num_mul_f_def c(1) z(1) [simplified])
qed

lemma int_mul_total:
  assumes C: "\<bar>C\<bar> \<le> 2 ^ 40" and a: "0 \<le> a" "a \<le> 1"
  shows "\<exists>n. bnd (num_mul_f (NInt C) (lit a)) py_int = Inr n"
proof -
  from lit_unit [OF a] obtain c where c: "lit a = Finite c" "0 \<le> c" "c \<le> 1" by blast
  from num_mul_f_small [OF C c(2,3)] obtain y where
    y: "num_mul_f (NInt C) (Finite c) = Inr (Finite y)" by blast
  then show ?thesis by (simp add: c(1))
qed

lemma macro2_total:
  assumes C: "\<bar>C\<bar> \<le> 2 ^ 40" and r: "0 \<le> r" "r \<le> 1" and a: "0 \<le> a" "a \<le> 1"
    and d: "1 \<le> d" "d \<le> 256"
  shows "\<exists>n. macro2 (NInt C) (lit r) (lit a) d = Inr n"
proof -
  from lit_unit [OF r] obtain c where c: "lit r = Finite c" "0 \<le> c" "c \<le> 1" by blast
  from num_mul_f_small [OF C c(2,3)] obtain y where
    y: "num_mul_f (NInt C) (Finite c) = Inr (Finite y)" "\<bar>y\<bar> \<le> 2 ^ 40" by blast
  from macro_float_total [OF y(2) a d] show ?thesis by (simp add: macro2_def c(1) y(1))
qed

lemma per_total:
  assumes C: "\<bar>C\<bar> \<le> 2 ^ 40" and d: "1 \<le> d" "d \<le> 256"
  shows "\<exists>n. per (NInt C) d = Inr n"
proof -
  have D: "(1::rat) \<le> of_int d" using d by simp
  have "\<bar>of_int C / (of_int d :: rat)\<bar> = \<bar>of_int C\<bar> / of_int d" using D by simp
  also have "\<dots> \<le> \<bar>of_int C\<bar> / 1" using D by (intro divide_left_mono) simp_all
  finally have "\<bar>of_int C / (of_int d :: rat)\<bar> \<le> 2 ^ 40" using abs_of_int_le [OF C] by simp
  from rnd64_bounded [OF this] obtain r where "rnd64 (of_int C / of_int d) = Finite r" by blast
  then show ?thesis using d by (simp add: per_def)
qed

subsection \<open>Dictionaries and the validator\<close>

lemma present_as_update:
  "present_as P (AList.update k v d) k' = (if k' = k then P v else present_as P d k')"
  by (simp add: present_as_def update_conv')

lemma has_key_update:
  "has_key (AList.update k v d) k' = (k' = k \<or> has_key d k')"
  by (simp add: has_key_def update_conv')

lemma present_as_has_key: "present_as P d k \<Longrightarrow> has_key d k"
  by (auto simp: present_as_def has_key_def split: option.splits)

lemma validate_complete:
  "complete_record d \<Longrightarrow> validate_llm_result d = Inr d"
  by (simp add: complete_record_def validate_llm_result_def ensure_foods_detected_def
      ensure_total_calories_def ensure_confidence_score_def ensure_nutritional_breakdown_def
      ensure_individual_foods_def ensure_health_tips_def)

lemma validate_result_complete:
  assumes "validate_llm_result d = Inr d'"
  shows "complete_record d'"
proof -
  let ?r1 = "ensure_foods_detected d"
  let ?r2 = "ensure_total_calories ?r1"
  let ?r3 = "ensure_confidence_score ?r2"
  from assms obtain r4 r5 where
    r4: "ensure_nutritional_breakdown ?r3 = Inr r4" and
    r5: "ensure_individual_foods r4 = Inr r5" and
    r6: "ensure_health_tips r5 = Inr d'"
    by (auto simp: validate_llm_result_def bnd_eq_Inr)
  have p1: "present_as is_list ?r1 ''foods_detected''"
    by (simp add: ensure_foods_detected_def present_as_update)
  have p2: "present_as is_list ?r2 ''foods_detected'' \<and> present_as is_number ?r2 ''total_calories''"
    using p1 by (simp add: ensure_total_calories_def present_as_update)
  have p3: "present_as is_list ?r3 ''foods_detected'' \<and> present_as is_number ?r3 ''total_calories''
      \<and> has_key ?r3 ''confidence_score''"
    using p2 by (simp add: ensure_confidence_score_def present_as_update has_key_update)
  have p4: "present_as is_list r4 ''foods_detected'' \<and> present_as is_number r4 ''total_calories''
      \<and> has_key r4 ''confidence_score'' \<and> present_as is_dict r4 ''nutritional_breakdown''"
    using p3 r4
    by (auto simp: ensure_nutritional_breakdown_def derived_breakdown_def bnd_eq_Inr
        present_as_update has_key_update split: if_splits)
  have p5: "present_as is_list r5 ''foods_detected'' \<and> present_as is_number r5 ''total_calories''
      \<and> has_key r5 ''confidence_score'' \<and> present_as is_dict r5 ''nutritional_breakdown''
      \<and> present_as is_list r5 ''individual_foods''"
    using p4 r5
    by (auto simp: ensure_individual_foods_def bnd_eq_Inr
        present_as_update has_key_update split: if_splits)
  show ?thesis
    using p5 r6
    by (auto simp: complete_record_def ensure_health_tips_def bnd_eq_Inr
        present_as_update has_key_update split: if_splits)
qed

lemma has_key_simps:
  "has_key [] k = False"
  "has_key ((k', v) # d) k = (k = k' \<or> has_key d k)"
  by (auto simp: has_key_def)



subsection \<open>The fallback on a fingerprint\<close>

lemma hex_digits_facts:
  "list_all (\<lambda>c. digit_val 16 c = Some (hex_digit c) \<and> 0 \<le> hex_digit c \<and> \<not> is_space c
      \<and> \<not> is_int_space c
      \<and> c \<noteq> CHR ''-'' \<and> c \<noteq> CHR ''+'' \<and> c \<noteq> CHR ''x'' \<and> c \<noteq> CHR ''X'' \<and> c \<noteq> CHR ''_'')
     ''0123456789abcdef''"
  by code_simp

lemma is_hex_facts:
  assumes "is_hex c"
  shows "digit_val 16 c = Some (hex_digit c)" "0 \<le> hex_digit c" "\<not> is_space c"
    "\<not> is_int_space c" "c \<noteq> CHR ''-''" "c \<noteq> CHR ''+''" "c \<noteq> CHR ''x''" "c \<noteq> CHR ''X''" "c \<noteq> CHR ''_''"
  using assms hex_digits_facts unfolding is_hex_def list_all_iff by blast+

lemma digit_run_hex:
  "list_all is_hex cs \<Longrightarrow> digit_run 16 acc cs = Some (foldl (\<lambda>a c. 16 * a + hex_digit c) acc cs)"
proof (induction "16::nat" acc cs rule: digit_run.induct)
  case (1 acc)
  then show ?case by simp
next
  case (2 acc c)
  then show ?case by (simp add: is_hex_facts)
next
  case (3 acc c d ds)
  then show ?case by (simp add: is_hex_facts)
qed

text \<open>Stripping a text that neither starts nor ends with a character to strip.\<close>

lemma strip_ends:
  assumes "s \<noteq> []" "\<not> P (hd s)" "\<not> P (last s)"
  shows "rev (dropWhile P (rev (dropWhile P s))) = s"
proof -
  from assms(1,2) have 1: "dropWhile P s = s" by (cases s) auto
  from assms(1) have "hd (rev s) = last s" by (simp add: hd_rev)
  with assms(3) have "dropWhile P (rev s) = rev s"
    by (simp add: dropWhile_eq_self_iff)
  then show ?thesis by (simp add: 1)
qed

lemma int_strip_hex:
  assumes "list_all is_hex h"
  shows "int_strip h = h"
proof (cases h)
  case Nil
  then show ?thesis by (simp add: int_strip_def)
next
  case (Cons c cs)
  with assms have f: "\<not> is_int_space (hd h)" by (simp add: is_hex_facts)
  from Cons assms have "is_hex (last h)" by (simp add: list_all_iff)
  then have l: "\<not> is_int_space (last h)" by (rule is_hex_facts)
  from Cons have "h \<noteq> []" by simp
  from strip_ends [OF this f l] show ?thesis by (simp add: int_strip_def)
qed

lemma int_base16_hex:
  assumes "list_all is_hex h" "h \<noteq> []"
  shows "int_base16 h = Inr (hex_value h)"
proof -
  from assms obtain c cs where h: "h = c # cs" by (cases h) auto
  with assms have c: "is_hex c" and cs: "list_all is_hex cs" by simp_all
  have ds: "drop_sign h = (False, h)"
    using is_hex_facts [OF c] by (simp add: drop_sign_def h)
  have dx: "drop_0x h = h"
  proof (cases cs)
    case Nil
    then show ?thesis by (simp add: drop_0x_def h)
  next
    case (Cons x r)
    with cs have "is_hex x" by simp
    then show ?thesis using is_hex_facts [of x] by (simp add: drop_0x_def h Cons)
  qed
  have "digits_body 16 h = Some (hex_value h)"
    by (simp add: digits_body_def h is_hex_facts [OF c] digit_run_hex [OF cs] hex_value_def)
  then show ?thesis
    by (simp add: int_base16_def int_of_str_def int_strip_hex [OF assms(1)] ds dx)
qed

lemma hex_value_nonneg: "list_all is_hex h \<Longrightarrow> 0 \<le> hex_value h"
proof -
  have "list_all is_hex h \<Longrightarrow> 0 \<le> a \<Longrightarrow> 0 \<le> foldl (\<lambda>a c. 16 * a + hex_digit c) a h" for a
  proof (induction h arbitrary: a)
    case Nil
    then show ?case by simp
  next
    case (Cons c cs)
    from Cons.prems have "is_hex c" by simp
    then have "0 \<le> hex_digit c" by (rule is_hex_facts)
    with Cons show ?case by simp
  qed
  then show "list_all is_hex h \<Longrightarrow> 0 \<le> hex_value h" by (simp add: hex_value_def)
qed

lemma fixed_entry_total:
  assumes C: "\<bar>C\<bar> \<le> 2 ^ 40"
    and a: "0 \<le> a" "a \<le> 1" and p: "0 \<le> p" "p \<le> 1"
    and c: "0 \<le> c" "c \<le> 1" and f: "0 \<le> f" "f \<le> 1"
  shows "\<exists>n1 n2 n3 n4. fixed_entry name portion (NInt C) a p c f =
           Inr (PDict [(''name'', name), (''estimated_portion'', PStr portion),
                       (''calories'', PInt n1), (''protein'', PStr (grams n2)),
                       (''carbs'', PStr (grams n3)), (''fat'', PStr (grams n4))])"
proof -
  from int_mul_total [OF C a] obtain n1 where
    1: "bnd (num_mul_f (NInt C) (lit a)) py_int = Inr n1" by blast
  from macro_total [OF C p, of 4] obtain n2 where 2: "macro (NInt C) (lit p) 4 = Inr n2" by auto
  from macro_total [OF C c, of 4] obtain n3 where 3: "macro (NInt C) (lit c) 4 = Inr n3" by auto
  from macro_total [OF C f, of 9] obtain n4 where 4: "macro (NInt C) (lit f) 9 = Inr n4" by auto
  show ?thesis by (simp add: fixed_entry_def 1 2 3 4) blast
qed

lemma food_combinations_bounds:
  "(f0, f1, f2, tc) \<in> set food_combinations \<Longrightarrow> 480 \<le> tc \<and> tc \<le> 720"
  by (auto simp: food_combinations_def)

lemma fallback_record_shape:
  assumes "(f0, f1, f2, tc) \<in> set food_combinations"
  shows "\<exists>e0 e1 e2. fallback_record (f0, f1, f2, tc) h =
     Inr [(''foods_detected'', PList [PStr f0, PStr f1, PStr f2]),
          (''total_calories'', PInt tc),
          (''nutritional_breakdown'',
             PDict [(''calories'', PInt tc),
                    (''protein'', PStr (grams (tc div 25))),
                    (''carbohydrates'', PStr (grams (27 * tc div 200))),
                    (''fat'', PStr (grams (tc div 30))),
                    (''fiber'', PStr (grams (max 4 (tc div 120)))),
                    (''sugar'', PStr (grams (max 3 (tc div 150))))]),
          (''individual_foods'', PList [e0, e1, e2]),
          (''health_tips'',
             PList [PStr (''Kombinasi '' @ f0 @ '' dan '' @ f1 @ '' memberikan energi yang baik''),
                    PStr ''Pastikan keseimbangan nutrisi dengan sayuran'',
                    PStr ''Minum air putih yang cukup untuk hidrasi'']),
          (''confidence_score'', PFloat (lit (75 / 100))),
          (''note'', PStr (mark_target @ '' Analisis konsisten berdasarkan foto (ID: '' @ h @ '')'')),
          (''analysis_source'', PStr ''smart_fallback'')]"
proof -
  from food_combinations_bounds [OF assms] have b: "480 \<le> tc" "tc \<le> 720" by auto
  then have C: "0 \<le> tc" "tc < 2 ^ 40" and A: "\<bar>tc\<bar> \<le> 2 ^ 40" by simp_all
  from fixed_entry_total [OF A, of "6 / 10" "1 / 10" "35 / 100" "18 / 100" "PStr f0" "''1 porsi utama''"]
  obtain e0 where e0: "fixed_entry (PStr f0) ''1 porsi utama'' (NInt tc)
      (6 / 10) (1 / 10) (35 / 100) (18 / 100) = Inr e0" by auto
  from fixed_entry_total [OF A, of "3 / 10" "5 / 100" "15 / 100" "8 / 100" "PStr f1" "''1 porsi sedang''"]
  obtain e1 where e1: "fixed_entry (PStr f1) ''1 porsi sedang'' (NInt tc)
      (3 / 10) (5 / 100) (15 / 100) (8 / 100) = Inr e1" by auto
  from fixed_entry_total [OF A, of "1 / 10" "1 / 100" "4 / 100" "4 / 100" "PStr f2" "''1 porsi kecil''"]
  obtain e2 where e2: "fixed_entry (PStr f2) ''1 porsi kecil'' (NInt tc)
      (1 / 10) (1 / 100) (4 / 100) (4 / 100) = Inr e2" by auto
  show ?thesis
    unfolding fallback_record_def prod.case derived_breakdown_int [OF C] bnd_Inr e0 e1 e2
    by blast
qed

lemma create_smart_fallback_hex:
  assumes "list_all is_hex h"
  shows "create_smart_fallback h =
    fallback_record (food_combinations ! nat (hex_value h mod int (length food_combinations))) h"
proof (cases "h = []")
  case True
  then show ?thesis by (simp add: create_smart_fallback_def hex_value_def)
next
  case False
  then show ?thesis by (simp add: create_smart_fallback_def int_base16_hex [OF assms])
qed

lemma selected_in_table:
  "food_combinations ! nat (n mod int (length food_combinations)) \<in> set food_combinations"
proof -
  have "length food_combinations = 7" by (simp add: food_combinations_def)
  then have "nat (n mod int (length food_combinations)) < length food_combinations"
    by simp
  then show ?thesis by (rule nth_mem)
qed

lemma create_smart_fallback_shape:
  assumes "list_all is_hex h"
  shows "\<exists>f0 f1 f2 tc b e0 e1 e2 tips conf note. 480 \<le> tc \<and>
    create_smart_fallback h =
     Inr [(''foods_detected'', PList [PStr f0, PStr f1, PStr f2]),
          (''total_calories'', PInt tc),
          (''nutritional_breakdown'', PDict b),
          (''individual_foods'', PList [e0, e1, e2]),
          (''health_tips'', PList tips),
          (''confidence_score'', PFloat conf),
          (''note'', PStr note),
          (''analysis_source'', PStr ''smart_fallback'')]"
proof -
  obtain f0 f1 f2 tc where
    s: "food_combinations ! nat (hex_value h mod int (length food_combinations)) = (f0, f1, f2, tc)"
    by (metis prod_cases4)
  with selected_in_table [of "hex_value h"] have m: "(f0, f1, f2, tc) \<in> set food_combinations"
    by simp
  from fallback_record_shape [OF m, of h] food_combinations_bounds [OF m]
  show ?thesis unfolding create_smart_fallback_hex [OF assms] s by blast
qed

lemma shape_check_dict:
  "is_valid_nutrition_result (PDict d) =
     Inr (has_key d ''total_calories'' \<and>
          (\<exists>fs. map_of d ''foods_detected'' = Some (PList fs) \<and> fs \<noteq> []))"
  by (auto simp: is_valid_nutrition_result_def has_key_def split: option.splits pyval.splits)

subsection \<open>What the validator changes and what it keeps\<close>

lemma ensure_nutritional_breakdown_frame:
  "ensure_nutritional_breakdown r = Inr r' \<Longrightarrow>
     r' = r \<or> (\<exists>b. r' = AList.update ''nutritional_breakdown'' b r)"
  by (auto simp: ensure_nutritional_breakdown_def bnd_eq_Inr split: if_splits)

lemma ensure_individual_foods_frame:
  "ensure_individual_foods r = Inr r' \<Longrightarrow>
     r' = r \<or> (\<exists>b. r' = AList.update ''individual_foods'' b r)"
  by (auto simp: ensure_individual_foods_def bnd_eq_Inr split: if_splits)

lemma ensure_health_tips_frame:
  "ensure_health_tips r = Inr r' \<Longrightarrow>
     r' = r \<or> (\<exists>b. r' = AList.update ''health_tips'' b r)"
  by (auto simp: ensure_health_tips_def bnd_eq_Inr split: if_splits)

lemma validate_frame:
  assumes "validate_llm_result d = Inr v"
    and "k \<noteq> ''nutritional_breakdown''" "k \<noteq> ''individual_foods''" "k \<noteq> ''health_tips''"
  shows "map_of v k = map_of (ensure_confidence_score (ensure_total_calories (ensure_foods_detected d))) k"
proof -
  let ?r3 = "ensure_confidence_score (ensure_total_calories (ensure_foods_detected d))"
  from assms(1) obtain r4 r5 where
    r4: "ensure_nutritional_breakdown ?r3 = Inr r4" and
    r5: "ensure_individual_foods r4 = Inr r5" and
    r6: "ensure_health_tips r5 = Inr v"
    by (auto simp: validate_llm_result_def bnd_eq_Inr)
  from ensure_nutritional_breakdown_frame [OF r4] assms(2) have "map_of r4 k = map_of ?r3 k"
    by (auto simp: update_conv')
  moreover from ensure_individual_foods_frame [OF r5] assms(3) have "map_of r5 k = map_of r4 k"
    by (auto simp: update_conv')
  moreover from ensure_health_tips_frame [OF r6] assms(4) have "map_of v k = map_of r5 k"
    by (auto simp: update_conv')
  ultimately show ?thesis by simp
qed

lemma validate_keeps_foods:
  assumes "validate_llm_result d = Inr v" "map_of d ''foods_detected'' = Some (PList fs)"
  shows "map_of v ''foods_detected'' = Some (PList fs)"
  using validate_frame [OF assms(1), of "''foods_detected''"] assms(2)
  by (simp add: ensure_confidence_score_def ensure_total_calories_def ensure_foods_detected_def
      present_as_def update_conv')

lemma validate_total_calories:
  assumes "validate_llm_result d = Inr v"
  shows "map_of v ''total_calories'' =
    (if present_as is_number d ''total_calories'' then map_of d ''total_calories'' else Some (PInt 450))"
  using validate_frame [OF assms(1), of "''total_calories''"]
  by (simp add: ensure_confidence_score_def ensure_total_calories_def ensure_foods_detected_def
      present_as_def update_conv' split: option.splits)

lemma validate_valid:
  assumes "validate_llm_result d = Inr v" "is_valid_nutrition_result (PDict d) = Inr True"
  shows "is_valid_nutrition_result (PDict v) = Inr True"
proof -
  from assms(2) obtain fs where fs: "map_of d ''foods_detected'' = Some (PList fs)" "fs \<noteq> []"
    by (auto simp: shape_check_dict)
  from validate_keeps_foods [OF assms(1) fs(1)] have 1: "map_of v ''foods_detected'' = Some (PList fs)" .
  from validate_result_complete [OF assms(1)] have "has_key v ''total_calories''"
    by (auto simp: complete_record_def dest: present_as_has_key)
  with 1 fs(2) show ?thesis by (simp add: shape_check_dict)
qed

subsection \<open>The validator on integer calories\<close>

lemma derived_breakdown_total:
  assumes C: "\<bar>C\<bar> \<le> 2 ^ 40"
  shows "\<exists>n1 n2 n3 n4 n5.
    macro (NInt C) (lit (16 / 100)) 4 = Inr n1 \<and>
    derived_breakdown (PInt C) =
      Inr (PDict [(''calories'', PInt C), (''protein'', PStr (grams n1)),
                  (''carbohydrates'', PStr (grams n2)), (''fat'', PStr (grams n3)),
                  (''fiber'', PStr (grams (max 4 n4))), (''sugar'', PStr (grams (max 3 n5)))])"
proof -
  from macro_total [OF C, of "16 / 100" 4] obtain n1 where
    1: "macro (NInt C) (lit (16 / 100)) 4 = Inr n1" by auto
  from macro_total [OF C, of "54 / 100" 4] obtain n2 where
    2: "macro (NInt C) (lit (54 / 100)) 4 = Inr n2" by auto
  from macro_total [OF C, of "30 / 100" 9] obtain n3 where
    3: "macro (NInt C) (lit (30 / 100)) 9 = Inr n3" by auto
  from per_total [OF C, of 120] obtain n4 where 4: "per (NInt C) 120 = Inr n4" by auto
  from per_total [OF C, of 150] obtain n5 where 5: "per (NInt C) 150 = Inr n5" by auto
  show ?thesis
    unfolding derived_breakdown_def as_num.simps bnd_Inr 1 2 3 4 5 by blast
qed

lemma food_entry_total:
  assumes C: "\<bar>C\<bar> \<le> 2 ^ 40" and i: "i < 3"
  shows "\<exists>e. food_entry (NInt C) i f = Inr e"
proof -
  obtain r where r: "portion_ratio i = lit r" "0 \<le> r" "r \<le> 1"
    by (cases "i = 0"; cases "i = 1") auto
  from i obtain w where w: "portion_word i = Inr w" by (simp add: portion_word_def)
  from int_mul_total [OF C r(2,3)] obtain n1 where
    1: "bnd (num_mul_f (NInt C) (lit r)) py_int = Inr n1" by blast
  from macro2_total [OF C r(2,3), of "15 / 100" 4] obtain n2 where
    2: "macro2 (NInt C) (lit r) (lit (15 / 100)) 4 = Inr n2" by auto
  from macro2_total [OF C r(2,3), of "55 / 100" 4] obtain n3 where
    3: "macro2 (NInt C) (lit r) (lit (55 / 100)) 4 = Inr n3" by auto
  from macro2_total [OF C r(2,3), of "30 / 100" 9] obtain n4 where
    4: "macro2 (NInt C) (lit r) (lit (30 / 100)) 9 = Inr n4" by auto
  show ?thesis
    unfolding food_entry_def r(1) w bnd_Inr 1 2 3 4 by blast
qed

lemma food_entries_total:
  assumes C: "\<bar>C\<bar> \<le> 2 ^ 40"
  shows "i + length fs \<le> 3 \<Longrightarrow> \<exists>es. food_entries (NInt C) i fs = Inr es"
proof (induction fs arbitrary: i)
  case Nil
  then show ?case by simp
next
  case (Cons f fs)
  then have i: "i < 3" and s: "Suc i + length fs \<le> 3" by simp_all
  from food_entry_total [OF C i, of f] obtain e where e: "food_entry (NInt C) i f = Inr e" by blast
  from Cons.IH [OF s] obtain es where es: "food_entries (NInt C) (Suc i) fs = Inr es" by blast
  show ?case by (simp add: e es)
qed

lemma py_join_strings: "\<exists>s. py_join sep (map PStr xs) = Inr s"
proof (induction xs)
  case Nil
  then show ?case by simp
next
  case (Cons x xs)
  then show ?case by (cases xs) auto
qed

text \<open>
  A candidate whose foods are strings and whose calories are an int of moderate size is
  validated without an exception.
\<close>

lemma validate_total:
  assumes foods: "map_of d ''foods_detected'' = Some (PList (map PStr xs))"
    and cal: "map_of d ''total_calories'' = Some (PInt C)" and C: "\<bar>C\<bar> \<le> 2 ^ 40"
  shows "\<exists>v. validate_llm_result d = Inr v"
proof -
  let ?r3 = "ensure_confidence_score (ensure_total_calories (ensure_foods_detected d))"
  have r3: "map_of ?r3 ''foods_detected'' = Some (PList (map PStr xs))"
    "map_of ?r3 ''total_calories'' = Some (PInt C)"
    using foods cal
    by (simp_all add: ensure_confidence_score_def ensure_total_calories_def
        ensure_foods_detected_def present_as_def update_conv')
  from derived_breakdown_total [OF C] obtain b where b: "derived_breakdown (PInt C) = Inr b"
    by blast
  have "\<exists>r4. ensure_nutritional_breakdown ?r3 = Inr r4"
    unfolding ensure_nutritional_breakdown_def subscript_def r3 by (simp add: b)
  then obtain r4 where r4: "ensure_nutritional_breakdown ?r3 = Inr r4" by blast
  from ensure_nutritional_breakdown_frame [OF r4] r3 have r4m:
    "map_of r4 ''foods_detected'' = Some (PList (map PStr xs))"
    "map_of r4 ''total_calories'' = Some (PInt C)"
    by (auto simp: update_conv')
  have "3 \<le> length xs \<or> length xs < 3" by arith
  then have "0 + length (take 3 (map PStr xs)) \<le> 3" by auto
  from food_entries_total [OF C this] obtain es where
    es: "food_entries (NInt C) 0 (take 3 (map PStr xs)) = Inr es" by blast
  have "\<exists>r5. ensure_individual_foods r4 = Inr r5"
    unfolding ensure_individual_foods_def get_or_def r4m
    by (cases "take 3 (map PStr xs)") (use es in auto)
  then obtain r5 where r5: "ensure_individual_foods r4 = Inr r5" by blast
  from ensure_individual_foods_frame [OF r5] r4m have r5m:
    "map_of r5 ''foods_detected'' = Some (PList (map PStr xs))"
    by (auto simp: update_conv')
  from py_join_strings [of "'', ''" xs] obtain s where s: "py_join '', '' (map PStr xs) = Inr s"
    by blast
  have "\<exists>v. ensure_health_tips r5 = Inr v"
    unfolding ensure_health_tips_def get_or_def r5m by (simp add: s)
  then show ?thesis by (simp add: validate_llm_result_def r4 r5)
qed

subsection \<open>The records of the heuristic extraction\<close>

lemma extract_body_shape:
  assumes "extract_body t h = Inr d"
  shows "\<exists>x xs n b e0 e1 tips conf note.
    d = [(''foods_detected'', PList (map PStr (x # xs))),
         (''total_calories'', PInt n),
         (''nutritional_breakdown'', b),
         (''individual_foods'', PList [e0, e1]),
         (''health_tips'', PList tips),
         (''confidence_score'', PFloat conf),
         (''note'', PStr note),
         (''analysis_source'', PStr ''extracted_llm''),
         (''image_id'', PStr h)]"
proof -
  define fs where "fs = (if detect_foods food_patterns t = [] then [''Makanan dari foto'']
                         else detect_foods food_patterns t)"
  have "fs \<noteq> []" by (simp add: fs_def)
  then obtain x xs where fs: "fs = x # xs" by (cases fs) auto
  from assms show ?thesis
    unfolding extract_body_def Let_def fs_def [symmetric] fs
    by (auto simp: bnd_eq_Inr)
qed

subsection \<open>The heuristic extraction does not raise\<close>

text \<open>A run of decimal digits read by \<open>int\<close>.\<close>

lemma dec_digits_facts:
  "list_all (\<lambda>c. digit_val 10 c = Some (int (of_char c) - 48)
      \<and> 48 \<le> (of_char c :: nat) \<and> (of_char c :: nat) \<le> 57 \<and> \<not> is_int_space c
      \<and> c \<noteq> CHR ''-'' \<and> c \<noteq> CHR ''+'' \<and> c \<noteq> CHR ''_'') ''0123456789''"
  by code_simp

lemma is_digit_facts:
  assumes "is_digit c"
  shows "digit_val 10 c = Some (int (of_char c) - 48)" "48 \<le> (of_char c :: nat)"
    "(of_char c :: nat) \<le> 57" "\<not> is_int_space c"
    "c \<noteq> CHR ''-''" "c \<noteq> CHR ''+''" "c \<noteq> CHR ''_''"
  using assms dec_digits_facts unfolding is_digit_def digit_chars_def list_all_iff by blast+

text \<open>The other case of a character is a digit only if the character is one.\<close>

lemma lower_char_digit:
  assumes "is_digit (lower_char c)"
  shows "is_digit c"
proof (cases "lower_char c = c")
  case True
  with assms show ?thesis by simp
next
  case False
  define n where "n = (of_char c :: nat)"
  from False have b: "n \<le> 222" and l: "lower_char c = char_of (n + 32)"
    by (auto simp: lower_char_def Let_def n_def split: if_splits)
  from b have "(n + 32) mod 256 = n + 32" by simp
  then have "(of_char (lower_char c) :: nat) = n + 32" by (simp add: l)
  moreover from False have "65 \<le> n"
    by (auto simp: lower_char_def Let_def n_def split: if_splits)
  ultimately show ?thesis using is_digit_facts(3) [OF assms] by simp
qed

lemma upper_char_digit:
  assumes "is_digit (upper_char c)"
  shows "is_digit c"
proof (cases "upper_char c = c")
  case True
  with assms show ?thesis by simp
next
  case False
  define n where "n = (of_char c :: nat)"
  from False have b: "97 \<le> n" "n \<le> 254" and l: "upper_char c = char_of (n - 32)"
    by (auto simp: upper_char_def Let_def n_def split: if_splits)
  from b have "(n - 32) mod 256 = n - 32" by simp
  then have "(of_char (upper_char c) :: nat) = n - 32" by (simp add: l)
  with b show ?thesis using is_digit_facts(3) [OF assms] by simp
qed

lemma in_set_digit: "in_set ic digit_chars c \<Longrightarrow> is_digit c"
  unfolding in_set_def is_digit_def [symmetric]
  using lower_char_digit upper_char_digit by blast

lemma digit_run_dec:
  "list_all is_digit cs \<Longrightarrow> 0 \<le> acc \<Longrightarrow>
     \<exists>v. digit_run 10 acc cs = Some v \<and> 0 \<le> v \<and> v < (acc + 1) * 10 ^ length cs"
proof (induction "10::nat" acc cs rule: digit_run.induct)
  case (1 acc)
  then show ?case by simp
next
  case (2 acc c)
  then have "is_digit c" by simp
  from is_digit_facts [OF this] 2 show ?case by simp
next
  case (3 acc c d ds)
  then have c: "is_digit c" and r: "list_all is_digit (d # ds)" by simp_all
  define v0 where "v0 = int (of_char c) - 48"
  from is_digit_facts [OF c] have v0: "digit_val 10 c = Some v0" "0 \<le> v0" "v0 \<le> 9"
    and u: "c \<noteq> CHR ''_''" by (simp_all add: v0_def)
  from 3 v0 have a: "0 \<le> int 10 * acc + v0" by simp
  from "3.hyps"(2) [OF u v0(1) r a] obtain v where
    v: "digit_run 10 (int 10 * acc + v0) (d # ds) = Some v" "0 \<le> v"
      "v < (int 10 * acc + v0 + 1) * 10 ^ length (d # ds)" by blast
  have "int 10 * acc + v0 + 1 \<le> 10 * (acc + 1)" using v0 by simp
  then have "(int 10 * acc + v0 + 1) * 10 ^ length (d # ds) \<le> 10 * (acc + 1) * 10 ^ length (d # ds)"
    by (rule mult_right_mono) simp
  also have "\<dots> = (acc + 1) * 10 ^ length (c # d # ds)" by simp
  finally have b: "v < (acc + 1) * 10 ^ length (c # d # ds)" using v(3) by linarith
  have "digit_run 10 acc (c # d # ds) = Some v" using u v0(1) v(1) by simp
  with v(2) b show ?case by blast
qed

lemma int_base10_digits:
  assumes "list_all is_digit ds" "ds \<noteq> []" "length ds \<le> 4300"
  shows "\<exists>v. int_base10 ds = Inr v \<and> 0 \<le> v \<and> v < 10 ^ length ds"
proof -
  from assms obtain c cs where ds: "ds = c # cs" by (cases ds) auto
  with assms have c: "is_digit c" and cs: "list_all is_digit cs" by simp_all
  define v0 where "v0 = int (of_char c) - 48"
  from is_digit_facts [OF c] have v0: "digit_val 10 c = Some v0" "0 \<le> v0" "v0 \<le> 9"
    by (simp_all add: v0_def)
  from assms have "is_digit (last ds)" by (simp add: list_all_iff)
  then have l: "\<not> is_int_space (last ds)" by (rule is_digit_facts)
  from c have f: "\<not> is_int_space (hd ds)" by (simp add: ds is_digit_facts)
  from strip_ends [OF assms(2) f l] have s: "int_strip ds = ds" by (simp add: int_strip_def)
  have sg: "drop_sign ds = (False, ds)"
    using is_digit_facts [OF c] by (simp add: drop_sign_def ds)
  from digit_run_dec [OF cs v0(2)] obtain v where
    v: "digit_run 10 v0 cs = Some v" "0 \<le> v" "v < (v0 + 1) * 10 ^ length cs" by blast
  have "v0 + 1 \<le> 10" using v0 by simp
  then have "(v0 + 1) * 10 ^ length cs \<le> 10 * 10 ^ length cs"
    by (rule mult_right_mono) simp
  also have "\<dots> = 10 ^ length ds" by (simp add: ds)
  finally have b: "v < 10 ^ length ds" using v(3) by linarith
  have u: "filter (\<lambda>c. c \<noteq> CHR ''_'') ds = ds"
    using assms(1) by (auto simp: filter_id_conv list_all_iff dest: is_digit_facts(7))
  have "digits_body 10 ds = Some v" by (simp add: digits_body_def ds v0 v)
  then have "int_base10 ds = Inr v"
    using assms(3) by (simp add: int_base10_def int_of_str_def s sg u Let_def)
  with v b show ?thesis by blast
qed

text \<open>The group of three or four digits.\<close>

lemma ms_Sym_elem:
  assumes "x \<in> set (ms ic (Sym cs) st)"
  shows "\<exists>c. fst st = c # fst x \<and> in_set ic cs c"
  using assms by (cases st) (auto split: list.splits if_splits)

lemma ms_Seq_elem:
  assumes "x \<in> set (ms ic (Seq a b) st)"
  shows "\<exists>y. y \<in> set (ms ic a st) \<and> x \<in> set (ms ic b y)"
  using assms by auto

lemma ms_digits34:
  assumes "st' \<in> set (ms ic digits34 (s, g))"
  shows "\<exists>ds. snd st' = Some ds \<and> list_all is_digit ds \<and> ds \<noteq> [] \<and> length ds \<le> 4"
proof -
  let ?d = "Sym digit_chars"
  from assms obtain x where
    x: "x \<in> set (ms ic (Seq ?d (Seq ?d (Seq ?d (Opt ?d)))) (s, g))"
    and st': "snd st' = Some (take (length s - length (fst x)) s)"
    unfolding digits34_def by auto
  from ms_Seq_elem [OF x] obtain y1 where
    y1: "y1 \<in> set (ms ic ?d (s, g))" and x1: "x \<in> set (ms ic (Seq ?d (Seq ?d (Opt ?d))) y1)"
    by blast
  from ms_Seq_elem [OF x1] obtain y2 where
    y2: "y2 \<in> set (ms ic ?d y1)" and x2: "x \<in> set (ms ic (Seq ?d (Opt ?d)) y2)"
    by blast
  from ms_Seq_elem [OF x2] obtain y3 where
    y3: "y3 \<in> set (ms ic ?d y2)" and x3: "x \<in> set (ms ic (Opt ?d) y3)"
    by blast
  from ms_Sym_elem [OF y1] obtain c1 where c1: "s = c1 # fst y1" "in_set ic digit_chars c1"
    by auto
  from ms_Sym_elem [OF y2] obtain c2 where c2: "fst y1 = c2 # fst y2" "in_set ic digit_chars c2"
    by auto
  from ms_Sym_elem [OF y3] obtain c3 where c3: "fst y2 = c3 # fst y3" "in_set ic digit_chars c3"
    by auto
  from x3 have "x \<in> set (ms ic ?d y3) \<or> x = y3" by (auto simp: Opt_def)
  then show ?thesis
  proof
    assume "x \<in> set (ms ic ?d y3)"
    from ms_Sym_elem [OF this] obtain c4 where
      c4: "fst y3 = c4 # fst x" "in_set ic digit_chars c4" by auto
    have "take (length s - length (fst x)) s = [c1, c2, c3, c4]"
      by (simp add: c1 c2 c3 c4)
    with st' c1 c2 c3 c4 show ?thesis by (simp add: in_set_digit)
  next
    assume "x = y3"
    then have "take (length s - length (fst x)) s = [c1, c2, c3]"
      by (simp add: c1 c2 c3)
    with st' c1 c2 c3 show ?thesis by (simp add: in_set_digit)
  qed
qed

lemma ms_no_grp:
  "no_grp r \<Longrightarrow> st' \<in> set (ms ic r st) \<Longrightarrow> snd st' = snd st"
proof (induction ic r st arbitrary: st' rule: ms.induct)
  case (1 ic st)
  then show ?case by simp
next
  case (2 ic cs s g)
  then show ?case by (auto split: list.splits if_splits)
next
  case (3 ic cs s g)
  then show ?case by (auto split: list.splits if_splits)
next
  case (4 ic a b st)
  from "4.prems" obtain x where x: "x \<in> set (ms ic a st)" and s: "st' \<in> set (ms ic b x)"
    by auto
  from "4.prems" have "no_grp a" "no_grp b" by simp_all
  with "4.IH"(1) [OF _ x] "4.IH"(2) [OF x _ s] show ?case by simp
next
  case (5 ic a b st)
  then show ?case by (cases st') auto
next
  case (6 ic a s g)
  then show ?case by simp
next
  case (7 ic greedy a s g)
  from "7.prems" have n: "no_grp a" by simp
  have "set (ms ic (Star greedy a) (s, g)) =
      insert (s, g) (\<Union>x \<in> set (filter (\<lambda>st'. length (fst st') < length s) (ms ic a (s, g))).
                        set (ms ic (Star greedy a) x))"
    by (subst ms.simps) (simp add: Let_def del: ms.simps)
  with "7.prems"(2) consider "st' = (s, g)"
    | x where "x \<in> set (filter (\<lambda>st'. length (fst st') < length s) (ms ic a (s, g)))"
        "st' \<in> set (ms ic (Star greedy a) x)"
    by (auto simp del: ms.simps)
  then show ?case
  proof cases
    case 1
    then show ?thesis by simp
  next
    case 2
    from 2(1) have "x \<in> set (ms ic a (s, g))" by simp
    from "7.IH"(1) [OF n this] have "snd x = g" by simp
    moreover from "7.IH"(2) [OF 2(1) "7.prems"(1) 2(2)] have "snd st' = snd x" .
    ultimately show ?thesis by simp
  qed
qed

lemma no_grp_Str: "no_grp (Str w)"
  by (induction w) (simp_all add: Str_def)

lemma calorie_patterns_group:
  assumes "p \<in> set calorie_patterns" "st' \<in> set (ms ic p (s, g))"
  shows "\<exists>ds. snd st' = Some ds \<and> list_all is_digit ds \<and> ds \<noteq> [] \<and> length ds \<le> 4"
proof -
  have tail: "\<exists>ds. snd st' = Some ds \<and> list_all is_digit ds \<and> ds \<noteq> [] \<and> length ds \<le> 4"
    if "st' \<in> set (ms ic (Seq a (Seq b digits34)) (s, g))" for a b
  proof -
    from ms_Seq_elem [OF that] obtain x where "st' \<in> set (ms ic (Seq b digits34) x)" by blast
    from ms_Seq_elem [OF this] obtain y where "st' \<in> set (ms ic digits34 y)" by blast
    with ms_digits34 [of st' ic "fst y" "snd y"] show ?thesis by simp
  qed
  have front: "\<exists>ds. snd st' = Some ds \<and> list_all is_digit ds \<and> ds \<noteq> [] \<and> length ds \<le> 4"
    if "st' \<in> set (ms ic (Seq digits34 b) (s, g))" "no_grp b" for b
  proof -
    from ms_Seq_elem [OF that(1)] obtain x where
      x: "x \<in> set (ms ic digits34 (s, g))" and s: "st' \<in> set (ms ic b x)"
      by blast
    from ms_no_grp [OF that(2) s] ms_digits34 [OF x] show ?thesis by simp
  qed
  have n: "no_grp (Seq (Star True (Sym space_chars)) (Seq (Opt (Sym ''k'')) (Str ''cal'')))"
    by (simp add: no_grp_Str Opt_def)
  from assms(1) consider
      "p = Seq (Str ''total_calories'') (Seq (Star True (Sym quote_colon_space)) digits34)"
    | "p = Seq digits34 (Seq (Star True (Sym space_chars)) (Seq (Opt (Sym ''k'')) (Str ''cal'')))"
    | "p = Seq (Str ''kalori'') (Seq (Star True (Sym colon_space)) digits34)"
    | "p = Seq (Str ''calories'') (Seq (Star True (Sym quote_colon_space)) digits34)"
    unfolding calorie_patterns_def by auto
  then show ?thesis
  proof cases
    case 1
    with assms(2) tail show ?thesis by blast
  next
    case 2
    with assms(2) front [OF _ n] show ?thesis by blast
  next
    case 3
    with assms(2) tail show ?thesis by blast
  next
    case 4
    with assms(2) tail show ?thesis by blast
  qed
qed

lemma findall_from_matches:
  assumes "m \<in> set (findall_from ic r k s)"
  shows "\<exists>s' st. st \<in> set (ms ic r (s', None)) \<and> m = match_text s' st"
  using assms
proof (induction ic r k s rule: findall_from.induct)
  case (1 ic r k)
  then show ?case by (auto split: if_splits list.splits) (metis list.set_intros(1))
next
  case (2 ic r k c cs)
  show ?case
  proof (cases "0 < k")
    case True
    with 2 show ?thesis by simp
  next
    case False
    show ?thesis
    proof (cases "ms ic r (c # cs, None)")
      case Nil
      with False 2 show ?thesis by simp
    next
      case (Cons st sts)
      with False "2.prems" have "m = match_text (c # cs) st
          \<or> m \<in> set (findall_from ic r (length (c # cs) - length (fst st) - 1) cs)"
        by auto
      then show ?thesis
      proof
        assume "m = match_text (c # cs) st"
        moreover from Cons have "st \<in> set (ms ic r (c # cs, None))" by simp
        ultimately show ?thesis by blast
      next
        assume "m \<in> set (findall_from ic r (length (c # cs) - length (fst st) - 1) cs)"
        with "2.IH"(3) [OF False Cons] show ?thesis by simp
      qed
    qed
  qed
qed

lemma detect_calories_bounds:
  assumes "0 \<le> dflt" "dflt < 10 ^ 4" "set ps \<subseteq> set calorie_patterns"
  shows "0 \<le> detect_calories ps t dflt \<and> detect_calories ps t dflt < 10 ^ 4"
  using assms(3)
proof (induction ps)
  case Nil
  with assms(1,2) show ?case by simp
next
  case (Cons p ps)
  then have p: "p \<in> set calorie_patterns" and IH: "0 \<le> detect_calories ps t dflt \<and> detect_calories ps t dflt < 10 ^ 4"
    by simp_all
  show ?case
  proof (cases "findall True p t")
    case Nil
    with IH show ?thesis by simp
  next
    case (Cons m ms')
    then have "m \<in> set (findall_from True p 0 t)" by (simp add: findall_def)
    from findall_from_matches [OF this] obtain s' st where
      st: "st \<in> set (ms True p (s', None))" and m: "m = match_text s' st" by blast
    from calorie_patterns_group [OF p st] obtain ds where
      ds: "snd st = Some ds" "list_all is_digit ds" "ds \<noteq> []" "length ds \<le> 4" by blast
    from ds(1) m have "m = ds" by (simp add: match_text_def)
    with int_base10_digits [OF ds(2,3)] ds(4) obtain v where
      v: "int_base10 m = Inr v" "0 \<le> v" "v < 10 ^ length ds" by auto
    have "(10::int) ^ length ds \<le> 10 ^ 4" using ds(4) by (intro power_increasing) simp_all
    with v Cons show ?thesis by simp
  qed
qed

lemma extract_body_total: "\<exists>d. extract_body t h = Inr d"
proof -
  define C where "C = detect_calories calorie_patterns t 450"
  from detect_calories_bounds [of 450 calorie_patterns t] have "0 \<le> C" "C < 10 ^ 4"
    by (simp_all add: C_def)
  then have A: "\<bar>C\<bar> \<le> 2 ^ 40" by simp
  from derived_breakdown_total [OF A] obtain b where b: "derived_breakdown (PInt C) = Inr b"
    by blast
  have e0: "\<exists>e. fixed_entry name portion (NInt C) (65 / 100) (1 / 10) (35 / 100) (2 / 10) = Inr e"
    for name portion
    using fixed_entry_total [OF A, of "65 / 100" "1 / 10" "35 / 100" "2 / 10" name portion]
    by auto
  have e1: "\<exists>e. fixed_entry name portion (NInt C) (35 / 100) (6 / 100) (19 / 100) (1 / 10) = Inr e"
    for name portion
    using fixed_entry_total [OF A, of "35 / 100" "6 / 100" "19 / 100" "1 / 10" name portion]
    by auto
  define n0 where "n0 = PStr (if (if detect_foods food_patterns t = [] then [''Makanan dari foto'']
       else detect_foods food_patterns t) \<noteq> [] then hd (if detect_foods food_patterns t = []
       then [''Makanan dari foto''] else detect_foods food_patterns t) else ''Makanan utama'')"
  define n1 where "n1 = PStr (if 1 < length (if detect_foods food_patterns t = []
       then [''Makanan dari foto''] else detect_foods food_patterns t)
       then (if detect_foods food_patterns t = [] then [''Makanan dari foto'']
             else detect_foods food_patterns t) ! 1 else ''Makanan pendamping'')"
  from e0 [of n0 "''1 porsi utama''"] obtain x0 where
    x0: "fixed_entry n0 ''1 porsi utama'' (NInt C) (65 / 100) (1 / 10) (35 / 100) (2 / 10) = Inr x0"
    by blast
  from e1 [of n1 "''1 porsi kecil''"] obtain x1 where
    x1: "fixed_entry n1 ''1 porsi kecil'' (NInt C) (35 / 100) (6 / 100) (19 / 100) (1 / 10) = Inr x1"
    by blast
  show ?thesis
    unfolding extract_body_def Let_def C_def [symmetric] n0_def [symmetric] n1_def [symmetric]
      b x0 x1 bnd_Inr
    by simp
qed

subsection \<open>The records of the JSON stages\<close>

lemma escape_not_Return [simp]: "escape e \<noteq> Return d"
  by (simp add: escape_def)

lemma try_candidate_with_Return:
  assumes "try_candidate_with loads x label tag h = Return d"
  shows "\<exists>d0 v. loads x = Inr (PDict d0) \<and> is_valid_nutrition_result (PDict d0) = Inr True
           \<and> validate_llm_result d0 = Inr v \<and> d = finish v label tag h"
  using assms
  by (auto simp: try_candidate_with_def split: sum.splits if_splits pyval.splits)

text \<open>The record of a loop is the record of one of its candidates.\<close>

lemma try_each_with_Return:
  assumes "try_each_with loads cs label tag h = Return d"
  shows "\<exists>x d0 v. x \<in> set (map strip cs) \<and> loads x = Inr (PDict d0)
           \<and> is_valid_nutrition_result (PDict d0) = Inr True
           \<and> validate_llm_result d0 = Inr v \<and> d = finish v label tag h"
  using assms
proof (induction cs)
  case Nil
  then show ?case by simp
next
  case (Cons c cs)
  show ?case
  proof (cases "try_candidate_with loads (strip c) label tag h")
    case (Return d')
    with Cons.prems have "d' = d" by simp
    with Return try_candidate_with_Return [of loads "strip c" label tag h d] show ?thesis by auto
  next
    case (Raise e)
    with Cons.prems show ?thesis by simp
  next
    case Next
    with Cons.prems have "try_each_with loads cs label tag h = Return d" by simp
    from Cons.IH [OF this] show ?thesis by auto
  qed
qed

text \<open>The tags of the three JSON stages, and the candidate behind a record.\<close>

lemma json_stages_with_Return:
  assumes "json_stages_with loads t h = Return d"
  shows "\<exists>x d0 v label tag.
           tag \<in> {''direct_json'', ''code_block_json'', ''pattern_json''}
           \<and> x \<in> set (candidates t)
           \<and> loads x = Inr (PDict d0) \<and> is_valid_nutrition_result (PDict d0) = Inr True
           \<and> validate_llm_result d0 = Inr v \<and> d = finish v label tag h"
proof (cases "direct_stage_with loads t h")
  case (Return d')
  define x where "x = replace (replace (strip t) ''```json'' []) ''```'' []"
  from Return assms have "direct_stage_with loads t h = Return d"
    by (simp add: json_stages_with_def)
  then have g: "startswith x ''{'' \<and> endswith x ''}''"
    and c: "try_candidate_with loads x ''Direct JSON parse'' ''direct_json'' h = Return d"
    by (auto simp: direct_stage_with_def Let_def x_def split: if_splits)
  from g have "x \<in> set (candidates t)"
    by (simp add: candidates_def Let_def x_def)
  with try_candidate_with_Return [OF c] show ?thesis by blast
next
  case (Raise e)
  with assms show ?thesis by (simp add: json_stages_with_def)
next
  case Next
  show ?thesis
  proof (cases "code_block_stage_with loads t h")
    case (Return d')
    with Next assms have "code_block_stage_with loads t h = Return d"
      by (simp add: json_stages_with_def)
    from try_each_with_Return [OF this [unfolded code_block_stage_with_def]]
    obtain x d0 v where x: "x \<in> set (map strip (findall True code_block_pattern t))"
      and r: "loads x = Inr (PDict d0)" "is_valid_nutrition_result (PDict d0) = Inr True"
        "validate_llm_result d0 = Inr v" "d = finish v ''Code block JSON parse'' ''code_block_json'' h"
      by blast
    from x have "x \<in> set (candidates t)" by (simp add: candidates_def Let_def)
    with r show ?thesis by blast
  next
    case (Raise e)
    with Next assms show ?thesis by (simp add: json_stages_with_def)
  next
    case Next': Next
    with Next assms have "pattern_stage_with loads t h = Return d"
      by (simp add: json_stages_with_def)
    from try_each_with_Return [OF this [unfolded pattern_stage_with_def]]
    obtain x d0 v where x: "x \<in> set (map strip (findall False json_pattern t))"
      and r: "loads x = Inr (PDict d0)" "is_valid_nutrition_result (PDict d0) = Inr True"
        "validate_llm_result d0 = Inr v" "d = finish v ''Pattern match JSON parse'' ''pattern_json'' h"
      by blast
    from x have "x \<in> set (candidates t)" by (simp add: candidates_def Let_def)
    with r show ?thesis by blast
  qed
qed

lemma try_candidate_Return:
  assumes "try_candidate x label tag h = Return d"
  shows "\<exists>d0 v. json_loads x = Inr (PDict d0) \<and> is_valid_nutrition_result (PDict d0) = Inr True
           \<and> validate_llm_result d0 = Inr v \<and> d = finish v label tag h"
  using assms unfolding try_candidate_def by (rule try_candidate_with_Return)

lemma json_stages_Return:
  assumes "json_stages t h = Return d"
  shows "\<exists>x d0 v label tag.
           tag \<in> {''direct_json'', ''code_block_json'', ''pattern_json''}
           \<and> x \<in> set (candidates t)
           \<and> json_loads x = Inr (PDict d0) \<and> is_valid_nutrition_result (PDict d0) = Inr True
           \<and> validate_llm_result d0 = Inr v \<and> d = finish v label tag h"
  using assms unfolding json_stages_def by (rule json_stages_with_Return)

subsection \<open>The paths of the pipeline\<close>

lemma extract_from_llm_response_cases:
  assumes "extract_from_llm_response t h = Inr d"
  shows "extract_body t h = Inr d \<or> create_smart_fallback h = Inr d"
  using assms by (auto simp: extract_from_llm_response_def split: sum.splits)

lemma recover_with_paths:
  assumes "recover_with loads t h = Inr d"
  shows "json_stages_with loads t h = Return d \<or> extract_body t h = Inr d
    \<or> create_smart_fallback h = Inr d"
proof (cases "parse_section_with loads t h")
  case (Inl e)
  with assms have "extract_from_llm_response t h = Inr d" by (simp add: recover_with_def)
  from extract_from_llm_response_cases [OF this] show ?thesis by blast
next
  case (Inr d')
  with assms have p: "parse_section_with loads t h = Inr d" by (simp add: recover_with_def)
  show ?thesis
  proof (cases "json_stages_with loads t h")
    case (Return d'')
    with p show ?thesis by (simp add: parse_section_with_def)
  next
    case (Raise e)
    with p show ?thesis by (simp add: parse_section_with_def)
  next
    case Next
    with p have "create_smart_fallback h = Inr d \<or> extract_from_llm_response t h = Inr d"
      by (auto simp: parse_section_with_def split: if_splits)
    with extract_from_llm_response_cases [of t h d] show ?thesis by blast
  qed
qed

lemma recover_paths:
  assumes "recover t h = Inr d"
  shows "json_stages t h = Return d \<or> extract_body t h = Inr d \<or> create_smart_fallback h = Inr d"
  using assms unfolding recover_def json_stages_def by (rule recover_with_paths)

lemma extract_from_llm_response_total:
  assumes "list_all is_hex h"
  shows "\<exists>d. extract_from_llm_response t h = Inr d"
proof (cases "extract_body t h")
  case (Inl e)
  with create_smart_fallback_shape [OF assms] show ?thesis
    by (auto simp: extract_from_llm_response_def)
next
  case (Inr d)
  then show ?thesis by (simp add: extract_from_llm_response_def)
qed

lemma recover_with_total:
  assumes "list_all is_hex h"
  shows "\<exists>d. recover_with loads t h = Inr d"
proof (cases "parse_section_with loads t h")
  case (Inl e)
  with extract_from_llm_response_total [OF assms, of t] show ?thesis
    by (simp add: recover_with_def)
next
  case (Inr d)
  then show ?thesis by (simp add: recover_with_def)
qed

lemma recover_total:
  assumes "list_all is_hex h"
  shows "\<exists>d. recover t h = Inr d"
  unfolding recover_def using assms by (rule recover_with_total)

subsection \<open>Fields of the returned records\<close>

lemma hex_digest_is_hex: "hex_digest h \<Longrightarrow> list_all is_hex h"
  by (simp add: hex_digest_def)

lemma map_of_finish:
  "map_of (finish v label tag h) k =
     (if k = ''image_id'' then Some (PStr h)
      else if k = ''analysis_source'' then Some (PStr tag)
      else if k = ''note'' then Some (PStr (mark_robot @ '' '' @ label @ '' (ID: '' @ h @ '')''))
      else map_of v k)"
  by (simp add: finish_def update_conv')

lemma has_key_finish:
  "has_key (finish v label tag h) k =
     (k = ''image_id'' \<or> k = ''analysis_source'' \<or> k = ''note'' \<or> has_key v k)"
  by (simp add: has_key_def map_of_finish)

lemma finish_valid:
  assumes "is_valid_nutrition_result (PDict v) = Inr True"
  shows "is_valid_nutrition_result (PDict (finish v label tag h)) = Inr True"
  using assms by (simp add: shape_check_dict has_key_finish map_of_finish)

lemma create_smart_fallback_valid:
  assumes "create_smart_fallback h = Inr d"
  shows "is_valid_nutrition_result (PDict d) = Inr True"
proof -
  from assms obtain n where
    "fallback_record (food_combinations ! nat (n mod int (length food_combinations))) h = Inr d"
    unfolding create_smart_fallback_def bnd_eq_Inr by blast
  then obtain f0 f1 f2 tc where "fallback_record (f0, f1, f2, tc) h = Inr d"
    by (cases "food_combinations ! nat (n mod int (length food_combinations))") auto
  then show ?thesis
    by (auto simp: fallback_record_def bnd_eq_Inr shape_check_dict has_key_simps)
qed

lemma recover_valid:
  assumes "recover t h = Inr d"
  shows "is_valid_nutrition_result (PDict d) = Inr True"
proof -
  from recover_paths [OF assms]
  consider (from_json) "json_stages t h = Return d" | (from_text) "extract_body t h = Inr d"
    | (from_table) "create_smart_fallback h = Inr d"
    by blast
  then show ?thesis
  proof cases
    case from_json
    from json_stages_Return [OF this] obtain d0 v label tag where
      "is_valid_nutrition_result (PDict d0) = Inr True" "validate_llm_result d0 = Inr v"
      "d = finish v label tag h" by blast
    with validate_valid [of d0 v] finish_valid [of v label tag h] show ?thesis by simp
  next
    case from_text
    from extract_body_shape [OF this] show ?thesis
      by (auto simp: shape_check_dict has_key_simps)
  next
    case from_table
    then show ?thesis by (rule create_smart_fallback_valid)
  qed
qed

subsection \<open>The derived breakdown in the validator\<close>

lemma floor_forms:
  "\<lfloor>of_int C * (16 / 100) / 4 :: rat\<rfloor> = C div 25"
  "\<lfloor>of_int C * (54 / 100) / 4 :: rat\<rfloor> = 27 * C div 200"
  "\<lfloor>of_int C * (30 / 100) / 9 :: rat\<rfloor> = C div 30"
  "\<lfloor>of_int C / 120 :: rat\<rfloor> = C div 120"
  "\<lfloor>of_int C / 150 :: rat\<rfloor> = C div 150"
proof -
  have 1: "of_int C * (16 / 100) / 4 = (of_int C :: rat) / of_int 25" by simp
  have 2: "of_int C * (54 / 100) / 4 = (of_int (27 * C) :: rat) / of_int 200" by simp
  have 3: "of_int C * (30 / 100) / 9 = (of_int C :: rat) / of_int 30" by simp
  have 4: "of_int C / 120 = (of_int C :: rat) / of_int 120" by simp
  have 5: "of_int C / 150 = (of_int C :: rat) / of_int 150" by simp
  show "\<lfloor>of_int C * (16 / 100) / 4 :: rat\<rfloor> = C div 25"
    unfolding 1 by (rule floor_divide_of_int_eq)
  show "\<lfloor>of_int C * (54 / 100) / 4 :: rat\<rfloor> = 27 * C div 200"
    unfolding 2 by (rule floor_divide_of_int_eq)
  show "\<lfloor>of_int C * (30 / 100) / 9 :: rat\<rfloor> = C div 30"
    unfolding 3 by (rule floor_divide_of_int_eq)
  show "\<lfloor>of_int C / 120 :: rat\<rfloor> = C div 120"
    unfolding 4 by (rule floor_divide_of_int_eq)
  show "\<lfloor>of_int C / 150 :: rat\<rfloor> = C div 150"
    unfolding 5 by (rule floor_divide_of_int_eq)
qed

lemma derived_breakdown_spec:
  assumes "0 \<le> C" "C < 2 ^ 40"
  shows "derived_breakdown (PInt C) = Inr (spec_breakdown C)"
  unfolding spec_breakdown_def floor_forms by (rule derived_breakdown_int [OF assms])

lemma validate_breakdown:
  assumes v: "validate_llm_result d = Inr v"
    and tc: "map_of d ''total_calories'' = Some x" "is_number x"
    and nb: "\<not> present_as is_dict d ''nutritional_breakdown''"
    and b: "derived_breakdown x = Inr b"
  shows "map_of v ''nutritional_breakdown'' = Some b"
proof -
  let ?r3 = "ensure_confidence_score (ensure_total_calories (ensure_foods_detected d))"
  from v obtain r4 r5 where
    r4: "ensure_nutritional_breakdown ?r3 = Inr r4" and
    r5: "ensure_individual_foods r4 = Inr r5" and
    r6: "ensure_health_tips r5 = Inr v"
    by (auto simp: validate_llm_result_def bnd_eq_Inr)
  have 1: "map_of ?r3 ''total_calories'' = Some x"
    using tc by (simp add: ensure_confidence_score_def ensure_total_calories_def
        ensure_foods_detected_def present_as_def update_conv')
  have 2: "\<not> present_as is_dict ?r3 ''nutritional_breakdown''"
    using nb by (simp add: ensure_confidence_score_def ensure_total_calories_def
        ensure_foods_detected_def present_as_update)
  from r4 have "r4 = AList.update ''nutritional_breakdown'' b ?r3"
    unfolding ensure_nutritional_breakdown_def subscript_def 1 using 2 by (simp add: b)
  then have "map_of r4 ''nutritional_breakdown'' = Some b" by (simp add: update_conv')
  moreover from ensure_individual_foods_frame [OF r5]
  have "map_of r5 ''nutritional_breakdown'' = map_of r4 ''nutritional_breakdown''"
    by (auto simp: update_conv')
  moreover from ensure_health_tips_frame [OF r6]
  have "map_of v ''nutritional_breakdown'' = map_of r5 ''nutritional_breakdown''"
    by (auto simp: update_conv')
  ultimately show ?thesis by simp
qed

lemma ensure_nutritional_breakdown_spec:
  assumes "0 \<le> C" "C < 2 ^ 40" "map_of d ''total_calories'' = Some (PInt C)"
    "\<not> present_as is_dict d ''nutritional_breakdown''"
  shows "ensure_nutritional_breakdown d =
    Inr (AList.update ''nutritional_breakdown'' (spec_breakdown C) d)"
  using assms(4)
  by (simp add: ensure_nutritional_breakdown_def subscript_def assms(3)
      derived_breakdown_spec [OF assms(1,2)])

text \<open>Truncation toward zero: minus ten calories give zero grams of protein.\<close>

lemma macro_minus_ten: "macro (NInt (- 10)) (lit (16 / 100)) 4 = Inr 0"
proof -
  let ?c = "5764607523034235 / 2 ^ 55 :: rat"
  let ?q = "of_int (- 10) * ?c"
  have m: "num_mul_f (NInt (- 10)) (Finite ?c) = Inr (rnd64 ?q)"
    by (simp add: num_mul_f_def int_to_float_exact)
  have "\<exists>r. rnd64 ?q = Finite r \<and> of_int (- 2) * pow2 (- 0) \<le> r \<and> r \<le> of_int (- 1) * pow2 (- 0)"
    by (rule rnd64_between [where E = 1]) (simp_all add: pow2_numeral_simps)
  then obtain r1 where r1: "rnd64 ?q = Finite r1" "- 2 \<le> r1" "r1 \<le> - 1"
    by (auto simp: pow2_numeral_simps)
  have "\<exists>r. rnd64 (r1 / 4) = Finite r \<and> of_int (- 2) * pow2 (- 2) \<le> r \<and> r \<le> of_int (- 1) * pow2 (- 2)"
    by (rule rnd64_between [where E = 0]) (use r1 in \<open>simp_all add: pow2_numeral_simps\<close>)
  then obtain r2 where r2: "rnd64 (r1 / 4) = Finite r2" "- (1 / 2) \<le> r2" "r2 \<le> - (1 / 4)"
    by (auto simp: pow2_numeral_simps)
  have "\<lfloor>- r2\<rfloor> = 0" using r2 by (simp add: floor_eq_iff) 
  then have "py_int (Finite r2) = Inr 0" using r2 by simp
  then show ?thesis
    unfolding lit_16 macro_def m bnd_Inr r1(1)
    by (simp add: int_to_float_exact r2(1))
qed

subsection \<open>Scenarios\<close>

lemma field_Inr [simp]: "field k (Inr d) = map_of d k"
  by (simp add: field_def)

lemma recover_with_json:
  "json_stages_with loads t h = Return d \<Longrightarrow> recover_with loads t h = Inr d"
  by (simp add: recover_with_def parse_section_with_def)

lemma recover_json: "json_stages t h = Return d \<Longrightarrow> recover t h = Inr d"
  unfolding recover_def json_stages_def by (rule recover_with_json)

lemma recover_with_raise:
  "json_stages_with loads t h = Raise e \<Longrightarrow> recover_with loads t h = extract_from_llm_response t h"
  by (simp add: recover_with_def parse_section_with_def)

lemma recover_with_refusal:
  assumes "json_stages_with loads t h = Next" "is_explanation t" "list_all is_hex h"
  shows "recover_with loads t h = create_smart_fallback h"
proof -
  from create_smart_fallback_shape [OF assms(3)] obtain d where "create_smart_fallback h = Inr d"
    by blast
  with assms(1,2) show ?thesis by (simp add: recover_with_def parse_section_with_def)
qed

lemma recover_refusal:
  assumes "json_stages t h = Next" "is_explanation t" "list_all is_hex h"
  shows "recover t h = create_smart_fallback h"
  using assms unfolding recover_def json_stages_def by (rule recover_with_refusal)


text \<open>A candidate with string foods and int calories of moderate size is returned.\<close>

lemma try_candidate_int:
  assumes j: "json_loads x = Inr (PDict d0)"
    and foods: "map_of d0 ''foods_detected'' = Some (PList (map PStr (y # ys)))"
    and cal: "map_of d0 ''total_calories'' = Some (PInt C)" and C: "\<bar>C\<bar> \<le> 2 ^ 40"
  shows "\<exists>v. validate_llm_result d0 = Inr v
    \<and> try_candidate x label tag h = Return (finish v label tag h)"
proof -
  from validate_total [OF foods cal C] obtain v where v: "validate_llm_result d0 = Inr v" by blast
  have "is_valid_nutrition_result (PDict d0) = Inr True"
    using foods cal by (simp add: shape_check_dict has_key_def)
  then show ?thesis by (simp add: try_candidate_def try_candidate_with_def j v)
qed






text \<open>Texts that grow, and a text without backquotes.\<close>

lemma startswith_append:
  assumes "startswith xs p"
  shows "startswith (xs @ ys) p"
proof -
  from assms have t: "take (length p) xs = p" by (simp add: startswith_def)
  then have "length (take (length p) xs) = length p" by simp
  then have "length p \<le> length xs" by simp
  with t show ?thesis by (simp add: startswith_def)
qed

lemma contains_append:
  assumes "contains xs p"
  shows "contains (xs @ ys) p"
  using assms
proof (induction xs)
  case Nil
  then show ?case by (cases ys) (simp_all add: startswith_def)
next
  case (Cons c cs)
  then show ?case using startswith_append [of "c # cs" p ys] by auto
qed

lemma endswith_append: "endswith (xs @ p) p"
  by (simp add: endswith_def)

lemma replace_from_absent:
  assumes "c \<notin> set s"
  shows "replace_from (c # old) new 0 s = s"
  using assms by (induction s) (auto simp: startswith_def)

lemma replace_absent: "c \<notin> set s \<Longrightarrow> replace s (c # old) new = s"
  by (simp add: replace_def replace_from_absent)

text \<open>A direct candidate whose integer has more than 4300 digits.\<close>

lemma long_integer_number:
  assumes "4300 \<le> n"
  shows "scan_number (CHR ''1'' # replicate n (CHR ''1'') @ ''}'') = Inl ValueError"
proof -
  have d: "is_digit (CHR ''1'')" "\<not> is_digit (CHR ''}'')"
    by (simp_all add: is_digit_def digit_chars_def)
  have t: "takeWhile is_digit (replicate n (CHR ''1'') @ ''}'') = replicate n (CHR ''1'')"
    using d by (induction n) simp_all
  have r: "dropWhile is_digit (replicate n (CHR ''1'') @ ''}'') = ''}''"
    using d by (induction n) simp_all
  show ?thesis
    using assms d
    by (simp add: scan_number_def scan_int_part_def scan_frac_def scan_exp_def t r Let_def)
qed

lemma long_integer_loads:
  assumes "4300 \<le> n"
  shows \<open>json_loads (''{"cannot analyze":1'' @ replicate n (CHR ''1'') @ ''}'') = Inl ValueError\<close>
proof -
  have v: "parse_value (CHR ''1'' # replicate n (CHR ''1'') @ ''}'') = Inl ValueError"
    by (subst parse_value.simps)
       (simp add: long_integer_number [OF assms] startswith_def
          del: parse_value.simps parse_elements.simps parse_members.simps)
  have m: \<open>parse_members (''"cannot analyze":1'' @ replicate n (CHR ''1'') @ ''}'') = Inl ValueError\<close>
    using v
    by (subst parse_members.simps)
       (simp add: skip_ws_def is_json_ws_def cons_str_def
          del: parse_value.simps parse_elements.simps parse_members.simps)
  have p: \<open>parse_value (''{"cannot analyze":1'' @ replicate n (CHR ''1'') @ ''}'') = Inl ValueError\<close>
    using m
    by (subst parse_value.simps)
       (simp add: skip_ws_def is_json_ws_def
          del: parse_value.simps parse_elements.simps parse_members.simps)
  show ?thesis
    using p
    by (simp add: json_loads_def skip_ws_def is_json_ws_def
          del: parse_value.simps parse_elements.simps parse_members.simps)
qed

lemma long_integer_cleaned:
  \<open>replace (replace (strip (''{"cannot analyze":1'' @ replicate n (CHR ''1'') @ ''}'')) ''```json'' []) ''```'' []
     = ''{"cannot analyze":1'' @ replicate n (CHR ''1'') @ ''}''\<close>
proof -
  let ?t = \<open>''{"cannot analyze":1'' @ replicate n (CHR ''1'') @ ''}''\<close>
  have "\<not> is_space (hd ?t)" "\<not> is_space (last ?t)" "?t \<noteq> []"
    by (simp_all add: is_space_def)
  from strip_ends [OF this(3,1,2)] have s: "strip ?t = ?t" by (simp add: strip_def)
  have a: "CHR 0x60 \<notin> set ?t" by auto
  from a have 1: "replace ?t ''```json'' [] = ?t" by (rule replace_absent)
  from a have 2: "replace ?t ''```'' [] = ?t" by (rule replace_absent)
  show ?thesis unfolding s 1 2 by (rule refl)
qed

lemma long_integer_direct:
  assumes "4300 \<le> n"
  shows \<open>direct_stage (''{"cannot analyze":1'' @ replicate n (CHR ''1'') @ ''}'') h = Raise ValueError\<close>
proof -
  let ?t = \<open>''{"cannot analyze":1'' @ replicate n (CHR ''1'') @ ''}''\<close>
  have s: "startswith ?t ''{''" by (simp add: startswith_def)
  have "endswith ((''{\"cannot analyze\":1'' @ replicate n (CHR ''1'')) @ ''}'') ''}''"
    by (rule endswith_append)
  then have e: "endswith ?t ''}''" by simp
  have "try_candidate_with json_loads ?t ''Direct JSON parse'' ''direct_json'' h = Raise ValueError"
    unfolding try_candidate_with_def long_integer_loads [OF assms] by (simp add: escape_def)
  with s e show ?thesis
    unfolding direct_stage_def direct_stage_with_def Let_def long_integer_cleaned by simp
qed

lemma long_integer_explanation:
  \<open>is_explanation (''{"cannot analyze":1'' @ replicate n (CHR ''1'') @ ''}'')\<close>
proof -
  have \<open>contains (lower ''{"cannot analyze":1'') ''cannot analyze''\<close> by code_simp
  from contains_append [OF this] show ?thesis
    by (simp add: is_explanation_def lower_def)
qed

lemma long_integer_recover:
  assumes "4300 \<le> n"
  shows \<open>json_stages (''{"cannot analyze":1'' @ replicate n (CHR ''1'') @ ''}'') h = Raise ValueError
    \<and> field ''analysis_source''
         (recover (''{"cannot analyze":1'' @ replicate n (CHR ''1'') @ ''}'') h)
       = Some (PStr ''extracted_llm'')\<close>
proof -
  let ?t = \<open>''{"cannot analyze":1'' @ replicate n (CHR ''1'') @ ''}''\<close>
  from long_integer_direct [OF assms, of h] have j: "json_stages ?t h = Raise ValueError"
    by (simp add: json_stages_def json_stages_with_def direct_stage_def)
  then have r: "recover ?t h = extract_from_llm_response ?t h"
    unfolding recover_def json_stages_def by (rule recover_with_raise)
  from extract_body_total [of ?t h] obtain d where d: "extract_body ?t h = Inr d" by blast
  then have "extract_from_llm_response ?t h = Inr d" by (simp add: extract_from_llm_response_def)
  with extract_body_shape [OF d] r j show ?thesis by auto
qed

text \<open>
  The stages pass on when every candidate is rejected: it fails to decode with
  \<open>JSONDecodeError\<close>, or it decodes to a value that fails the shape check.
\<close>

lemma try_candidate_with_rejected:
  assumes "loads c = Inl JSONDecodeError
    \<or> (\<exists>v. loads c = Inr v \<and> is_valid_nutrition_result v = Inr False)"
  shows "try_candidate_with loads c label tag h = Next"
  using assms by (auto simp: try_candidate_with_def escape_def)

lemma try_each_with_rejected:
  assumes "\<forall>c \<in> set (map strip cs). loads c = Inl JSONDecodeError
    \<or> (\<exists>v. loads c = Inr v \<and> is_valid_nutrition_result v = Inr False)"
  shows "try_each_with loads cs label tag h = Next"
  using assms by (induction cs) (simp_all add: try_candidate_with_rejected)

lemma json_stages_with_rejected:
  assumes "\<forall>c \<in> set (candidates t). loads c = Inl JSONDecodeError
    \<or> (\<exists>v. loads c = Inr v \<and> is_valid_nutrition_result v = Inr False)"
  shows "json_stages_with loads t h = Next"
proof -
  have 1: "direct_stage_with loads t h = Next"
    using assms
    by (auto simp: direct_stage_with_def candidates_def Let_def try_candidate_with_rejected)
  have 2: "code_block_stage_with loads t h = Next"
    unfolding code_block_stage_with_def
    using assms by (intro try_each_with_rejected) (simp add: candidates_def Let_def)
  have 3: "pattern_stage_with loads t h = Next"
    unfolding pattern_stage_with_def
    using assms by (intro try_each_with_rejected) (simp add: candidates_def Let_def)
  from 1 2 3 show ?thesis by (simp add: json_stages_with_def)
qed

section \<open>The claims\<close>

text \<open>
  C3 (as amended). The shape check accepts a dictionary exactly when the key
  \<open>total_calories\<close> is present, with any value, and \<open>foods_detected\<close> is a list that
  is not empty.
\<close>

theorem shape_check_accepts:
  "is_valid_nutrition_result (PDict d) =
     Inr (has_key d ''total_calories'' \<and>
          (\<exists>fs. map_of d ''foods_detected'' = Some (PList fs) \<and> fs \<noteq> []))"
  by (rule shape_check_dict)

text \<open>
  A dictionary whose \<open>total_calories\<close> is \<open>None\<close> (JSON \<open>null\<close>) passes the shape
  check, although \<open>None\<close> is no number.
\<close>

theorem shape_check_counterexample:
  "is_valid_nutrition_result
     (PDict [(''foods_detected'', PList [PStr ''Nasi'']), (''total_calories'', PNone)]) = Inr True
   \<and> \<not> is_number PNone"
  by (simp add: is_valid_nutrition_result_def has_key_simps)

text \<open>
  C8. The validator returns a complete record unchanged, and applying it to its own
  result returns that result again.
\<close>

theorem validator_idempotent:
  "(complete_record d \<longrightarrow> validate_llm_result d = Inr d) \<and>
   (\<forall>d'. validate_llm_result d = Inr d' \<longrightarrow>
      bnd (validate_llm_result d) validate_llm_result = Inr d')"
  using validate_complete validate_result_complete by (auto simp: bnd_eq_Inr)

theorem validator_idempotent_witness:
  "complete_record
     [(''foods_detected'', PList [PStr ''Nasi'']), (''total_calories'', PInt 500),
      (''confidence_score'', PFloat (Finite (1 / 2))), (''nutritional_breakdown'', PDict []),
      (''individual_foods'', PList []), (''health_tips'', PList [])]
   \<and> bnd (validate_llm_result
         [(''foods_detected'', PList [PStr ''Nasi'']), (''total_calories'', PInt 500),
          (''confidence_score'', PFloat (Finite (1 / 2))), (''nutritional_breakdown'', PDict []),
          (''individual_foods'', PList []), (''health_tips'', PList [])])
       validate_llm_result
     = Inr [(''foods_detected'', PList [PStr ''Nasi'']), (''total_calories'', PInt 500),
            (''confidence_score'', PFloat (Finite (1 / 2))), (''nutritional_breakdown'', PDict []),
            (''individual_foods'', PList []), (''health_tips'', PList [])]"
proof -
  let ?d = "[(''foods_detected'', PList [PStr ''Nasi'']), (''total_calories'', PInt 500),
      (''confidence_score'', PFloat (Finite (1 / 2))), (''nutritional_breakdown'', PDict []),
      (''individual_foods'', PList []), (''health_tips'', PList [])]"
  have c: "complete_record ?d"
    by (simp add: complete_record_def present_as_def has_key_simps)
  from validator_idempotent [of ?d] c show ?thesis
    by blast
qed

text \<open>
  C1. For every text of the model's reply and every fingerprint, the recovery returns a
  record, and the record passes the shape check.
\<close>

theorem recovery_total:
  assumes "hex_digest h"
  shows "\<exists>d. recover t h = Inr d \<and> is_valid_nutrition_result (PDict d) = Inr True"
proof -
  from recover_total [OF hex_digest_is_hex [OF assms], of t] obtain d where
    d: "recover t h = Inr d" by blast
  from recover_valid [OF d] d show ?thesis by blast
qed

text \<open>
  The empty text, a sentence, a broken JSON text and a JSON object without the required
  fields.
\<close>

theorem recovery_total_witness:
  \<open>hex_digest ''d41d8cd9''
   \<and> (\<exists>d. recover [] ''d41d8cd9'' = Inr d \<and> is_valid_nutrition_result (PDict d) = Inr True)
   \<and> (\<exists>d. recover ''Sepiring nasi dengan lauk.'' ''d41d8cd9'' = Inr d
          \<and> is_valid_nutrition_result (PDict d) = Inr True)
   \<and> (\<exists>d. recover ''{"foods_detected": ["Nasi",'' ''d41d8cd9'' = Inr d
          \<and> is_valid_nutrition_result (PDict d) = Inr True)
   \<and> (\<exists>d. recover ''{"menu": "nasi"}'' ''d41d8cd9'' = Inr d
          \<and> is_valid_nutrition_result (PDict d) = Inr True)\<close>
proof -
  have h: "hex_digest ''d41d8cd9''" by code_simp
  from h recovery_total [OF h] show ?thesis by blast
qed

text \<open>
  C2 (as amended). Every record that the recovery returns carries \<open>foods_detected\<close>,
  \<open>total_calories\<close>, \<open>nutritional_breakdown\<close>, \<open>individual_foods\<close>, \<open>health_tips\<close>,
  \<open>confidence_score\<close>, \<open>analysis_source\<close> and \<open>note\<close>; a record that is not tagged
  \<open>smart_fallback\<close> carries \<open>image_id\<close> too; and a record of the JSON stages is a result
  of the validator on which the note, the tag and the fingerprint have been set.
\<close>

theorem recovery_fields:
  assumes "hex_digest h"
  shows "\<exists>d. recover t h = Inr d
    \<and> has_key d ''foods_detected'' \<and> has_key d ''total_calories''
    \<and> has_key d ''nutritional_breakdown'' \<and> has_key d ''individual_foods''
    \<and> has_key d ''health_tips'' \<and> has_key d ''confidence_score''
    \<and> has_key d ''analysis_source'' \<and> has_key d ''note''
    \<and> (map_of d ''analysis_source'' \<noteq> Some (PStr ''smart_fallback'') \<longrightarrow> has_key d ''image_id'')
    \<and> (json_stages t h = Return d \<longrightarrow>
          (\<exists>d0 v label tag. validate_llm_result d0 = Inr v \<and> d = finish v label tag h))"
proof -
  have hx: "list_all is_hex h" using assms by (rule hex_digest_is_hex)
  from recover_total [OF hx, of t] obtain d where d: "recover t h = Inr d" by blast
  have j: "json_stages t h = Return d \<longrightarrow>
          (\<exists>d0 v label tag. validate_llm_result d0 = Inr v \<and> d = finish v label tag h)"
    using json_stages_Return [of t h d] by blast
  from recover_paths [OF d]
  consider (from_json) "json_stages t h = Return d" | (from_text) "extract_body t h = Inr d"
    | (from_table) "create_smart_fallback h = Inr d"
    by blast
  then have "has_key d ''foods_detected'' \<and> has_key d ''total_calories''
    \<and> has_key d ''nutritional_breakdown'' \<and> has_key d ''individual_foods''
    \<and> has_key d ''health_tips'' \<and> has_key d ''confidence_score''
    \<and> has_key d ''analysis_source'' \<and> has_key d ''note''
    \<and> (map_of d ''analysis_source'' \<noteq> Some (PStr ''smart_fallback'') \<longrightarrow> has_key d ''image_id'')"
  proof cases
    case from_json
    from json_stages_Return [OF this] obtain d0 v label tag where
      v: "validate_llm_result d0 = Inr v" and f: "d = finish v label tag h" by blast
    from validate_result_complete [OF v] have "complete_record v" .
    then show ?thesis
      unfolding f has_key_finish complete_record_def
      by (auto dest: present_as_has_key)
  next
    case from_text
    from extract_body_shape [OF this] show ?thesis
      by (auto simp: has_key_simps)
  next
    case from_table
    with create_smart_fallback_shape [OF hx] show ?thesis
      by (auto simp: has_key_simps)
  qed
  with d j show ?thesis by blast
qed

theorem recovery_fields_witness:
  \<open>hex_digest ''d41d8cd9''
   \<and> (\<exists>d. recover ''{"foods_detected":["Nasi"],"total_calories":500}'' ''d41d8cd9'' = Inr d
        \<and> has_key d ''foods_detected'' \<and> has_key d ''total_calories''
        \<and> has_key d ''nutritional_breakdown'' \<and> has_key d ''individual_foods''
        \<and> has_key d ''health_tips'' \<and> has_key d ''confidence_score''
        \<and> has_key d ''analysis_source'' \<and> has_key d ''note'')\<close>
proof -
  have h: "hex_digest ''d41d8cd9''" by code_simp
  from recovery_fields [OF h, of \<open>''{"foods_detected":["Nasi"],"total_calories":500}''\<close>] h
  show ?thesis by blast
qed

text \<open>
  A reply that talks about image processing is answered from the table, and the record
  of the table has no \<open>image_id\<close>.
\<close>

theorem recovery_fields_counterexample:
  "field ''analysis_source'' (recover ''The photo needs image processing first.'' ''d41d8cd9'')
     = Some (PStr ''smart_fallback'')
   \<and> field ''image_id'' (recover ''The photo needs image processing first.'' ''d41d8cd9'') = None"
proof -
  have s: "json_stages ''The photo needs image processing first.'' ''d41d8cd9'' = Next"
    by code_simp
  have e: "is_explanation ''The photo needs image processing first.''" by code_simp
  have x: "list_all is_hex ''d41d8cd9''" by code_simp
  from create_smart_fallback_shape [OF x] show ?thesis
    unfolding recover_refusal [OF s e x] by auto
qed

text \<open>
  C4 (as amended). The \<open>total_calories\<close> of every returned record is a number (an int, a
  float or a bool). In a record of the fallback it is an int above zero. A record of
  the JSON stages comes from one of the candidate texts of the reply: the candidate
  decodes to a dictionary that passes the shape check, the record is the validated
  dictionary with note, tag and fingerprint set, and its \<open>total_calories\<close> is the
  candidate's own value when that is a number, of any sign, and 450 otherwise. The
  decoder is the parameter \<open>loads\<close>: the statement holds for whatever \<open>json.loads\<close>
  returns or raises on the candidates, for \<open>json_loads\<close> in particular.
\<close>

theorem recovery_total_calories:
  assumes "hex_digest h"
  shows "\<exists>d x. recover_with loads t h = Inr d
    \<and> map_of d ''total_calories'' = Some x \<and> is_number x
    \<and> (map_of d ''analysis_source'' = Some (PStr ''smart_fallback'') \<longrightarrow> (\<exists>n. x = PInt n \<and> 0 < n))
    \<and> (json_stages_with loads t h = Return d \<longrightarrow>
          (\<exists>c d0 v label tag. c \<in> set (candidates t) \<and> loads c = Inr (PDict d0)
             \<and> is_valid_nutrition_result (PDict d0) = Inr True
             \<and> validate_llm_result d0 = Inr v \<and> d = finish v label tag h
             \<and> Some x = (if present_as is_number d0 ''total_calories''
                          then map_of d0 ''total_calories'' else Some (PInt 450))))"
proof -
  have hx: "list_all is_hex h" using assms by (rule hex_digest_is_hex)
  from recover_with_total [OF hx, of loads t] obtain d where d: "recover_with loads t h = Inr d"
    by blast
  have j: "\<exists>c d0 v label tag. c \<in> set (candidates t) \<and> loads c = Inr (PDict d0)
             \<and> is_valid_nutrition_result (PDict d0) = Inr True
             \<and> validate_llm_result d0 = Inr v \<and> d = finish v label tag h
             \<and> map_of d ''total_calories'' = (if present_as is_number d0 ''total_calories''
                          then map_of d0 ''total_calories'' else Some (PInt 450))"
    if "json_stages_with loads t h = Return d"
  proof -
    from json_stages_with_Return [OF that] obtain c d0 v label tag where
      m: "c \<in> set (candidates t)" and c: "loads c = Inr (PDict d0)"
      and s: "is_valid_nutrition_result (PDict d0) = Inr True"
      and v: "validate_llm_result d0 = Inr v"
      and tag: "tag \<in> {''direct_json'', ''code_block_json'', ''pattern_json''}"
      and f: "d = finish v label tag h" by blast
    have "map_of d ''total_calories'' = map_of v ''total_calories''"
      unfolding f map_of_finish by simp
    with validate_total_calories [OF v] m c s v f show ?thesis by metis
  qed
  from recover_with_paths [OF d]
  consider (from_json) "json_stages_with loads t h = Return d"
    | (from_text) "extract_body t h = Inr d"
    | (from_table) "create_smart_fallback h = Inr d"
    by blast
  then have "\<exists>x. map_of d ''total_calories'' = Some x \<and> is_number x
    \<and> (map_of d ''analysis_source'' = Some (PStr ''smart_fallback'') \<longrightarrow> (\<exists>n. x = PInt n \<and> 0 < n))"
  proof cases
    case from_json
    from json_stages_with_Return [OF this] obtain d0 v label tag where
      tag: "tag \<in> {''direct_json'', ''code_block_json'', ''pattern_json''}"
      and v: "validate_llm_result d0 = Inr v" and f: "d = finish v label tag h" by blast
    from validate_result_complete [OF v] have "present_as is_number v ''total_calories''"
      by (simp add: complete_record_def)
    then obtain x where "map_of v ''total_calories'' = Some x" "is_number x"
      by (auto simp: present_as_def split: option.splits)
    with tag show ?thesis unfolding f map_of_finish by auto
  next
    case from_text
    from extract_body_shape [OF this] show ?thesis by auto
  next
    case from_table
    with create_smart_fallback_shape [OF hx] show ?thesis by auto
  qed
  then obtain x where x: "map_of d ''total_calories'' = Some x" "is_number x"
    "map_of d ''analysis_source'' = Some (PStr ''smart_fallback'') \<longrightarrow> (\<exists>n. x = PInt n \<and> 0 < n)"
    by blast
  from j x(1) have "json_stages_with loads t h = Return d \<longrightarrow>
          (\<exists>c d0 v label tag. c \<in> set (candidates t) \<and> loads c = Inr (PDict d0)
             \<and> is_valid_nutrition_result (PDict d0) = Inr True
             \<and> validate_llm_result d0 = Inr v \<and> d = finish v label tag h
             \<and> Some x = (if present_as is_number d0 ''total_calories''
                          then map_of d0 ''total_calories'' else Some (PInt 450)))"
    by simp
  with d x show ?thesis by blast
qed

text \<open>A sentence about the meal, with \<open>json_loads\<close> as the decoder.\<close>

theorem recovery_total_calories_witness:
  "hex_digest ''d41d8cd9''
   \<and> (\<exists>d x. recover ''It looks like fried rice.'' ''d41d8cd9'' = Inr d
         \<and> map_of d ''total_calories'' = Some x \<and> is_number x)"
proof -
  have h: "hex_digest ''d41d8cd9''" by code_simp
  from recovery_total_calories [OF h, of json_loads "''It looks like fried rice.''"] h
  show ?thesis unfolding recover_def by blast
qed

text \<open>
  A candidate with zero calories is returned by the direct stage with its zero.
\<close>

theorem recovery_total_calories_counterexample:
  \<open>field ''total_calories'' (recover ''{"foods_detected":["Nasi"],"total_calories":0}'' ''d41d8cd9'')
     = Some (PInt 0)
   \<and> field ''analysis_source'' (recover ''{"foods_detected":["Nasi"],"total_calories":0}'' ''d41d8cd9'')
     = Some (PStr ''direct_json'')\<close>
proof -
  have j: \<open>json_loads ''{"foods_detected":["Nasi"],"total_calories":0}'' =
     Inr (PDict [(''foods_detected'', PList [PStr ''Nasi'']), (''total_calories'', PInt 0)])\<close>
    by code_simp
  have c: \<open>replace (replace (strip ''{"foods_detected":["Nasi"],"total_calories":0}'') ''```json'' []) ''```'' []
      = ''{"foods_detected":["Nasi"],"total_calories":0}''\<close>
    by code_simp
  have s: \<open>startswith ''{"foods_detected":["Nasi"],"total_calories":0}'' ''{''
      \<and> endswith ''{"foods_detected":["Nasi"],"total_calories":0}'' ''}''\<close>
    by code_simp
  from try_candidate_int [OF j, of "''Nasi''" "[]" 0 "''Direct JSON parse''" "''direct_json''" "''d41d8cd9''"]
  obtain v where
    v: "validate_llm_result [(''foods_detected'', PList [PStr ''Nasi'']), (''total_calories'', PInt 0)] = Inr v"
    and t: \<open>try_candidate ''{"foods_detected":["Nasi"],"total_calories":0}''
       ''Direct JSON parse'' ''direct_json'' ''d41d8cd9''
     = Return (finish v ''Direct JSON parse'' ''direct_json'' ''d41d8cd9'')\<close>
    by auto
  have \<open>json_stages ''{"foods_detected":["Nasi"],"total_calories":0}'' ''d41d8cd9''
      = Return (finish v ''Direct JSON parse'' ''direct_json'' ''d41d8cd9'')\<close>
    unfolding json_stages_def json_stages_with_def direct_stage_with_def
      try_candidate_def [symmetric] Let_def c
    using s t by simp
  from recover_json [OF this] validate_total_calories [OF v] show ?thesis
    by (simp add: map_of_finish present_as_def)
qed

text \<open>
  C5. The fallback is a function of the fingerprint alone: for a fingerprint of
  hexadecimal digits it is the record built from the table entry at the index
  \<open>hex_value h mod 7\<close>, and it does not raise. Two different fingerprints can select the
  same entry: \<open>00000000\<close> and \<open>00000007\<close> both select the first one.
\<close>

theorem fallback_selection:
  "(list_all is_hex h \<longrightarrow>
      create_smart_fallback h =
        fallback_record (food_combinations ! nat (hex_value h mod int (length food_combinations))) h
      \<and> (\<exists>d. create_smart_fallback h = Inr d))
   \<and> ''00000000'' \<noteq> ''00000007''
   \<and> field ''foods_detected'' (create_smart_fallback ''00000000'')
       = Some (PList [PStr ''Nasi putih'', PStr ''Ayam goreng'', PStr ''Sayur bayam''])
   \<and> field ''foods_detected'' (create_smart_fallback ''00000007'')
       = Some (PList [PStr ''Nasi putih'', PStr ''Ayam goreng'', PStr ''Sayur bayam''])"
proof -
  have 1: "list_all is_hex h \<longrightarrow>
      create_smart_fallback h =
        fallback_record (food_combinations ! nat (hex_value h mod int (length food_combinations))) h
      \<and> (\<exists>d. create_smart_fallback h = Inr d)"
    using create_smart_fallback_hex [of h] create_smart_fallback_shape [of h] by blast
  have a: "list_all is_hex ''00000000''" and b: "list_all is_hex ''00000007''" by code_simp+
  have ia: "food_combinations ! nat (hex_value ''00000000'' mod int (length food_combinations))
      = (''Nasi putih'', ''Ayam goreng'', ''Sayur bayam'', 580)"
    by code_simp
  have ib: "food_combinations ! nat (hex_value ''00000007'' mod int (length food_combinations))
      = (''Nasi putih'', ''Ayam goreng'', ''Sayur bayam'', 580)"
    by code_simp
  have m: "(''Nasi putih'', ''Ayam goreng'', ''Sayur bayam'', 580) \<in> set food_combinations"
    by (simp add: food_combinations_def)
  have 2: "field ''foods_detected'' (create_smart_fallback ''00000000'')
       = Some (PList [PStr ''Nasi putih'', PStr ''Ayam goreng'', PStr ''Sayur bayam''])"
    using fallback_record_shape [OF m, of "''00000000''"]
    unfolding create_smart_fallback_hex [OF a] ia by auto
  have 3: "field ''foods_detected'' (create_smart_fallback ''00000007'')
       = Some (PList [PStr ''Nasi putih'', PStr ''Ayam goreng'', PStr ''Sayur bayam''])"
    using fallback_record_shape [OF m, of "''00000007''"]
    unfolding create_smart_fallback_hex [OF b] ib by auto
  have 4: "''00000000'' \<noteq> ''00000007''" by simp
  from 1 2 3 4 show ?thesis by blast
qed

theorem fallback_selection_witness:
  "list_all is_hex ''d41d8cd9''
   \<and> create_smart_fallback ''d41d8cd9''
       = fallback_record (''Soto ayam'', ''Nasi putih'', ''Emping'', 480) ''d41d8cd9''
   \<and> (\<exists>d. create_smart_fallback ''d41d8cd9'' = Inr d)"
proof -
  have a: "list_all is_hex ''d41d8cd9''" by code_simp
  have i: "food_combinations ! nat (hex_value ''d41d8cd9'' mod int (length food_combinations))
      = (''Soto ayam'', ''Nasi putih'', ''Emping'', 480)"
    by code_simp
  from fallback_selection [of "''d41d8cd9''"] a show ?thesis
    unfolding i by blast
qed


text \<open>
  C7 (as amended). When the three JSON stages run through without returning a record
  and without raising, and the text has one of the phrases of a general explanation,
  the recovery is the fallback itself, tagged \<open>smart_fallback\<close>; the heuristic extraction
  is not consulted. The decoder is the parameter \<open>loads\<close>: the statement holds for
  whatever \<open>json.loads\<close> returns or raises on the candidates. (When a stage raises, the
  handler of the parsing section answers with the heuristic extraction instead.)
\<close>

theorem refusal_shortcut:
  assumes "json_stages_with loads t h = Next" "is_explanation t" "hex_digest h"
  shows "recover_with loads t h = create_smart_fallback h
    \<and> field ''analysis_source'' (recover_with loads t h) = Some (PStr ''smart_fallback'')"
proof -
  have hx: "list_all is_hex h" using assms(3) by (rule hex_digest_is_hex)
  from recover_with_refusal [OF assms(1,2) hx] create_smart_fallback_shape [OF hx]
  show ?thesis by auto
qed

text \<open>The sentence of the specification, with \<open>json_loads\<close> as the decoder.\<close>

theorem refusal_shortcut_witness:
  "json_stages ''I cannot analyze this image, it appears to be a general photo.'' ''d41d8cd9'' = Next
   \<and> is_explanation ''I cannot analyze this image, it appears to be a general photo.''
   \<and> hex_digest ''d41d8cd9''
   \<and> recover ''I cannot analyze this image, it appears to be a general photo.'' ''d41d8cd9''
       = create_smart_fallback ''d41d8cd9''
   \<and> field ''analysis_source''
        (recover ''I cannot analyze this image, it appears to be a general photo.'' ''d41d8cd9'')
       = Some (PStr ''smart_fallback'')"
proof -
  have s: "json_stages ''I cannot analyze this image, it appears to be a general photo.'' ''d41d8cd9'' = Next"
    by code_simp
  have e: "is_explanation ''I cannot analyze this image, it appears to be a general photo.''"
    by code_simp
  have h: "hex_digest ''d41d8cd9''" by code_simp
  from refusal_shortcut [OF s [unfolded json_stages_def] e h] s e h show ?thesis
    unfolding recover_def by blast
qed

text \<open>
  A reply that is one JSON object, with the phrase \<open>cannot analyze\<close> as its key and an
  integer of 4301 digits as its value: the decoder raises \<open>ValueError\<close> in the direct
  stage, so no stage accepts a parse, and the handler of the parsing section answers
  with the heuristic extraction, tagged \<open>extracted_llm\<close>.
\<close>

theorem refusal_shortcut_counterexample:
  \<open>is_explanation (''{"cannot analyze":1'' @ replicate 4300 (CHR ''1'') @ ''}'')
   \<and> json_stages (''{"cannot analyze":1'' @ replicate 4300 (CHR ''1'') @ ''}'') ''d41d8cd9''
       = Raise ValueError
   \<and> field ''analysis_source''
        (recover (''{"cannot analyze":1'' @ replicate 4300 (CHR ''1'') @ ''}'') ''d41d8cd9'')
       = Some (PStr ''extracted_llm'')\<close>
proof -
  have "(4300::nat) \<le> 4300" by simp
  from long_integer_recover [OF this, of "''d41d8cd9''"] long_integer_explanation [of 4300]
  show ?thesis by blast
qed

text \<open>
  C9 (as amended). For int calories \<open>C\<close> with \<open>0 \<le> C < 2^40\<close> and no breakdown given,
  the validator derives the breakdown of the specification: the five quantities rounded
  down, each written as \<open><integer>g\<close>.
\<close>

theorem macro_derivation:
  assumes "0 \<le> C" "C < 2 ^ 40" "map_of d ''total_calories'' = Some (PInt C)"
    "\<not> present_as is_dict d ''nutritional_breakdown''"
  shows "ensure_nutritional_breakdown d =
      Inr (AList.update ''nutritional_breakdown'' (spec_breakdown C) d)
    \<and> (\<forall>v. validate_llm_result d = Inr v \<longrightarrow>
          map_of v ''nutritional_breakdown'' = Some (spec_breakdown C))"
proof -
  have "map_of v ''nutritional_breakdown'' = Some (spec_breakdown C)"
    if "validate_llm_result d = Inr v" for v
    using that assms(3) _ assms(4) derived_breakdown_spec [OF assms(1,2)]
    by (rule validate_breakdown) simp
  with ensure_nutritional_breakdown_spec [OF assms] show ?thesis by blast
qed

text \<open>With 600 calories: 24 grams of protein and 20 grams of fat.\<close>

theorem macro_derivation_witness:
  "(0::int) \<le> 600 \<and> (600::int) < 2 ^ 40
   \<and> map_of [(''foods_detected'', PList [PStr ''Nasi'']), (''total_calories'', PInt 600)]
        ''total_calories'' = Some (PInt 600)
   \<and> \<not> present_as is_dict
          [(''foods_detected'', PList [PStr ''Nasi'']), (''total_calories'', PInt 600)]
          ''nutritional_breakdown''
   \<and> field ''nutritional_breakdown''
        (validate_llm_result
           [(''foods_detected'', PList [PStr ''Nasi'']), (''total_calories'', PInt 600)])
      = Some (PDict [(''calories'', PInt 600), (''protein'', PStr ''24g''),
                     (''carbohydrates'', PStr ''81g''), (''fat'', PStr ''20g''),
                     (''fiber'', PStr ''5g''), (''sugar'', PStr ''4g'')])"
proof -
  let ?d = "[(''foods_detected'', PList [PStr ''Nasi'']), (''total_calories'', PInt 600)]"
  have 1: "(0::int) \<le> 600" and 2: "(600::int) < 2 ^ 40" by simp_all
  have 3: "map_of ?d ''total_calories'' = Some (PInt 600)" by simp
  have 4: "\<not> present_as is_dict ?d ''nutritional_breakdown''" by (simp add: present_as_def)
  have f: "map_of ?d ''foods_detected'' = Some (PList (map PStr [''Nasi'']))" by simp
  from validate_total [OF f 3] obtain v where v: "validate_llm_result ?d = Inr v" by auto
  have s: "spec_breakdown 600 =
      PDict [(''calories'', PInt 600), (''protein'', PStr ''24g''),
             (''carbohydrates'', PStr ''81g''), (''fat'', PStr ''20g''),
             (''fiber'', PStr ''5g''), (''sugar'', PStr ''4g'')]"
    unfolding spec_breakdown_def floor_forms by code_simp
  from macro_derivation [OF 1 2 3 4] v have
    "field ''nutritional_breakdown'' (validate_llm_result ?d) = Some (spec_breakdown 600)"
    by simp
  with 1 2 3 4 show ?thesis unfolding s by blast
qed

text \<open>
  With minus ten calories the validator writes \<open>0g\<close> of protein, as \<open>int\<close> truncates
  toward zero, where rounding down gives \<open>-1g\<close>.
\<close>

theorem macro_derivation_counterexample:
  "entry ''protein''
     (field ''nutritional_breakdown''
        (validate_llm_result
           [(''foods_detected'', PList [PStr ''Nasi'']), (''total_calories'', PInt (- 10))]))
     = Some (PStr ''0g'')
   \<and> entry ''protein'' (Some (spec_breakdown (- 10))) = Some (PStr ''-1g'')"
proof -
  let ?d = "[(''foods_detected'', PList [PStr ''Nasi'']), (''total_calories'', PInt (- 10))]"
  have c: "\<bar>- 10 :: int\<bar> \<le> 2 ^ 40" by simp
  have 3: "map_of ?d ''total_calories'' = Some (PInt (- 10))" by simp
  have 4: "\<not> present_as is_dict ?d ''nutritional_breakdown''" by (simp add: present_as_def)
  have f: "map_of ?d ''foods_detected'' = Some (PList (map PStr [''Nasi'']))" by simp
  from validate_total [OF f 3 c] obtain v where v: "validate_llm_result ?d = Inr v" by auto
  from derived_breakdown_total [OF c] macro_minus_ten obtain n2 n3 n4 n5 where
    b: "derived_breakdown (PInt (- 10)) =
      Inr (PDict [(''calories'', PInt (- 10)), (''protein'', PStr (grams 0)),
                  (''carbohydrates'', PStr (grams n2)), (''fat'', PStr (grams n3)),
                  (''fiber'', PStr (grams (max 4 n4))), (''sugar'', PStr (grams (max 3 n5)))])"
    by auto
  have g0: "grams 0 = ''0g''" by code_simp
  have g1: "grams (- 1) = ''-1g''" by code_simp
  from validate_breakdown [OF v 3 _ 4 b] have
    "entry ''protein'' (field ''nutritional_breakdown'' (validate_llm_result ?d)) = Some (PStr ''0g'')"
    by (simp add: v entry_def g0)
  moreover have "entry ''protein'' (Some (spec_breakdown (- 10))) = Some (PStr ''-1g'')"
    unfolding spec_breakdown_def floor_forms by (simp add: entry_def g1)
  ultimately show ?thesis by blast
qed

text \<open>
  C10. With the empty fingerprint the fallback does not decode anything (the decoding
  of the empty string would raise \<open>ValueError\<close>): it takes index 0 and returns the record
  of the first table entry, with 580 calories.
\<close>

theorem fallback_empty_fingerprint:
  "create_smart_fallback '''' =
     fallback_record (''Nasi putih'', ''Ayam goreng'', ''Sayur bayam'', 580) ''''
   \<and> field ''foods_detected'' (create_smart_fallback '''')
       = Some (PList [PStr ''Nasi putih'', PStr ''Ayam goreng'', PStr ''Sayur bayam''])
   \<and> field ''total_calories'' (create_smart_fallback '''') = Some (PInt 580)
   \<and> field ''analysis_source'' (create_smart_fallback '''') = Some (PStr ''smart_fallback'')
   \<and> int_base16 '''' = Inl ValueError"
proof -
  have 1: "create_smart_fallback '''' =
     fallback_record (''Nasi putih'', ''Ayam goreng'', ''Sayur bayam'', 580) ''''"
    by (simp add: create_smart_fallback_def food_combinations_def)
  have m: "(''Nasi putih'', ''Ayam goreng'', ''Sayur bayam'', 580) \<in> set food_combinations"
    by (simp add: food_combinations_def)
  have 2: "int_base16 '''' = Inl ValueError" by code_simp
  from fallback_record_shape [OF m, of "''''"] 1 2 show ?thesis by auto
qed

end
